theory Spec2Isabelle
  imports Main "HOL-Library.Word"
begin

section \<open>The machine: sizes, errors, pointers and the free store\<close>

text \<open>
  \<^verbatim>\<open>size_t\<close> is an unsigned 64-bit integer: \<open>+\<close>, \<open>-\<close> and \<open>*\<close> wrap around.
  A call that throws returns \<open>Inl\<close> of the exception and of the state it leaves behind
  (the free store, and for a member function the object); a call that returns normally
  returns \<open>Inr\<close> of its result and of the new state. Undefined behaviour (a read or
  write outside an allocated block, through a null or dangling pointer, pointer arithmetic
  outside a block) and a failed \<^verbatim>\<open>assert\<close> are such exceptions too: nothing is claimed of
  a run that reaches one.
\<close>

type_synonym size_t = "64 word"

datatype error = bad_alloc | out_of_range | assertion_failed | undefined_behaviour

text \<open>
  A \<^verbatim>\<open>Type*\<close> is null or designates the element \<open>k\<close> of the block at address \<open>a\<close>
  (\<open>k\<close> may be the block's length: one past the end).
\<close>

datatype pointer = nullptr | Ptr nat nat

text \<open>
  The free store: the blocks that \<^verbatim>\<open>new Type[n]\<close> has returned, by address (\<open>None\<close>
  once deleted; addresses are never reused), the number of elements that may still be
  allocated, and the value a default-initialised element of a fresh block shows at each
  index (\<^verbatim>\<open>Type()\<close> for a class type, indeterminate for a scalar type).
\<close>

record 'a heap =
  blocks :: "'a list option list"
  avail :: nat
  fresh :: "nat \<Rightarrow> 'a"

type_synonym 'a fault = "error \<times> 'a heap"

definition and_then :: "'f + 'a \<Rightarrow> ('a \<Rightarrow> 'f + 'b) \<Rightarrow> 'f + 'b" where
  "and_then m f = (case m of Inl e \<Rightarrow> Inl e | Inr x \<Rightarrow> f x)"

definition block_at :: "nat \<Rightarrow> 'a heap \<Rightarrow> 'a list option" where
  "block_at a h = (if a < length (blocks h) then blocks h ! a else None)"

text \<open>
  The largest array \<^verbatim>\<open>new Type[n]\<close> can return: an object has at most
  \<^verbatim>\<open>PTRDIFF_MAX\<close> bytes, and an element has at least one.
\<close>

definition max_array :: nat where
  "max_array = 2 ^ 63 - 1"

definition new_array :: "size_t \<Rightarrow> 'a heap \<Rightarrow> 'a fault + (pointer \<times> 'a heap)" where
  "new_array n h =
     (if max_array < unat n \<or> avail h < unat n then Inl (bad_alloc, h)
      else Inr (Ptr (length (blocks h)) 0,
                h\<lparr>blocks := blocks h @ [Some (map (fresh h) [0..<unat n])],
                  avail := avail h - unat n\<rparr>))"

definition delete_array :: "pointer \<Rightarrow> 'a heap \<Rightarrow> 'a fault + 'a heap" where
  "delete_array p h =
     (case p of
        nullptr \<Rightarrow> Inr h
      | Ptr a k \<Rightarrow>
          (case block_at a h of
             None \<Rightarrow> Inl (undefined_behaviour, h)
           | Some b \<Rightarrow>
               if k = 0
               then Inr (h\<lparr>blocks := (blocks h)[a := None], avail := avail h + length b\<rparr>)
               else Inl (undefined_behaviour, h)))"

text \<open>\<^verbatim>\<open>p + n\<close>, \<^verbatim>\<open>p - q\<close> (converted to \<^verbatim>\<open>size_t\<close>), the lvalue \<^verbatim>\<open>p[i]\<close>, and a read
  and a write through a pointer or reference.\<close>

definition ptr_add :: "pointer \<Rightarrow> size_t \<Rightarrow> 'a heap \<Rightarrow> 'a fault + pointer" where
  "ptr_add p n h =
     (case p of
        nullptr \<Rightarrow> if n = 0 then Inr nullptr else Inl (undefined_behaviour, h)
      | Ptr a k \<Rightarrow>
          (case block_at a h of
             None \<Rightarrow> Inl (undefined_behaviour, h)
           | Some b \<Rightarrow>
               if k + unat n \<le> length b then Inr (Ptr a (k + unat n))
               else Inl (undefined_behaviour, h)))"

fun ptr_diff :: "pointer \<Rightarrow> pointer \<Rightarrow> 'a heap \<Rightarrow> 'a fault + size_t" where
  "ptr_diff nullptr nullptr h = Inr 0"
| "ptr_diff (Ptr a k) (Ptr b j) h =
     (if a = b then Inr (word_of_nat k - word_of_nat j) else Inl (undefined_behaviour, h))"
| "ptr_diff p q h = Inl (undefined_behaviour, h)"

definition subscript :: "pointer \<Rightarrow> size_t \<Rightarrow> 'a heap \<Rightarrow> 'a fault + pointer" where
  "subscript p i h =
     (case p of
        nullptr \<Rightarrow> Inl (undefined_behaviour, h)
      | Ptr a k \<Rightarrow>
          (case block_at a h of
             None \<Rightarrow> Inl (undefined_behaviour, h)
           | Some b \<Rightarrow>
               if k + unat i < length b then Inr (Ptr a (k + unat i))
               else Inl (undefined_behaviour, h)))"

definition deref :: "pointer \<Rightarrow> 'a heap \<Rightarrow> 'a fault + 'a" where
  "deref p h =
     (case p of
        nullptr \<Rightarrow> Inl (undefined_behaviour, h)
      | Ptr a k \<Rightarrow>
          (case block_at a h of
             None \<Rightarrow> Inl (undefined_behaviour, h)
           | Some b \<Rightarrow> if k < length b then Inr (b ! k) else Inl (undefined_behaviour, h)))"

definition assign_to :: "pointer \<Rightarrow> 'a \<Rightarrow> 'a heap \<Rightarrow> 'a fault + 'a heap" where
  "assign_to p x h =
     (case p of
        nullptr \<Rightarrow> Inl (undefined_behaviour, h)
      | Ptr a k \<Rightarrow>
          (case block_at a h of
             None \<Rightarrow> Inl (undefined_behaviour, h)
           | Some b \<Rightarrow>
               if k < length b then Inr (h\<lparr>blocks := (blocks h)[a := Some (b[k := x])]\<rparr>)
               else Inl (undefined_behaviour, h)))"

text \<open>\<^verbatim>\<open>std::swap(a, b)\<close> on two references into a store of objects; \<open>a\<close> and \<open>b\<close> may
  be the same object.\<close>

definition std_swap :: "'r \<Rightarrow> 'r \<Rightarrow> ('r \<Rightarrow> 'v) \<Rightarrow> ('r \<Rightarrow> 'v)" where
  "std_swap a b S = (let tmp = S a; S1 = S(a := S b); S2 = S1(b := tmp) in S2)"

text \<open>The counted loops \<^verbatim>\<open>for (size_t i = a; i < n; ++i) body\<close> and
  \<^verbatim>\<open>for (size_t i = a; i > n; --i) body\<close>.\<close>

function for_up :: "size_t \<Rightarrow> size_t \<Rightarrow> (size_t \<Rightarrow> 's \<Rightarrow> 'f + 's) \<Rightarrow> 's \<Rightarrow> 'f + 's" where
  "for_up i n body s =
     (if i < n then and_then (body i s) (for_up (i + 1) n body) else Inr s)"
  by pat_completeness auto
termination
  by (relation "measure (\<lambda>(i, n, body, s). unat n - unat i)") (simp, simp, unat_arith)

function for_down :: "size_t \<Rightarrow> size_t \<Rightarrow> (size_t \<Rightarrow> 's \<Rightarrow> 'f + 's) \<Rightarrow> 's \<Rightarrow> 'f + 's" where
  "for_down i n body s =
     (if i > n then and_then (body i s) (for_down (i - 1) n body) else Inr s)"
  by pat_completeness auto
termination
  by (relation "measure (\<lambda>(i, n, body, s). unat i)") (simp, simp, unat_arith)

section \<open>ArrayPtr (array\_ptr.h)\<close>

text \<open>A name cannot end in an underscore here: the members \<^verbatim>\<open>raw_ptr_\<close>, \<^verbatim>\<open>size_\<close>,
  \<^verbatim>\<open>capacity_\<close> and \<^verbatim>\<open>items_\<close> are written \<open>raw_ptr_m\<close>, \<open>size_m\<close>, \<open>capacity_m\<close>
  and \<open>items_m\<close>.\<close>

datatype ArrayPtr = ArrayPtr (raw_ptr_m: pointer)

text \<open>A statement on the free store, run inside a function whose own state is \<open>s\<close> (the
  object, or a store of objects): an exception leaves \<open>s\<close> as it is at that statement.\<close>

definition in_this :: "'s \<Rightarrow> (error \<times> 'h) + 'b \<Rightarrow> (error \<times> 's \<times> 'h) + 'b" where
  "in_this s m = (case m of Inl (e, h) \<Rightarrow> Inl (e, s, h) | Inr x \<Rightarrow> Inr x)"

text \<open>\<^verbatim>\<open>ArrayPtr() = default\<close>, \<^verbatim>\<open>explicit ArrayPtr(size_t size)\<close> and
  \<^verbatim>\<open>explicit ArrayPtr(Type* raw_ptr)\<close>.\<close>

definition ArrayPtr_default :: ArrayPtr where
  "ArrayPtr_default = ArrayPtr nullptr"

definition ArrayPtr_sized :: "size_t \<Rightarrow> 'a heap \<Rightarrow> 'a fault + (ArrayPtr \<times> 'a heap)" where
  "ArrayPtr_sized sz h =
     (if sz \<noteq> 0 then and_then (new_array sz h) (\<lambda>(p, h1). Inr (ArrayPtr p, h1))
      else Inr (ArrayPtr nullptr, h))"

definition ArrayPtr_adopt :: "pointer \<Rightarrow> ArrayPtr" where
  "ArrayPtr_adopt raw_ptr = ArrayPtr raw_ptr"

text \<open>\<^verbatim>\<open>ArrayPtr(ArrayPtr&& other)\<close>: the new object and what is left of \<open>other\<close>.\<close>

definition ArrayPtr_move :: "ArrayPtr \<Rightarrow> ArrayPtr \<times> ArrayPtr" where
  "ArrayPtr_move other = (ArrayPtr (raw_ptr_m other), ArrayPtr nullptr)"

text \<open>\<^verbatim>\<open>~ArrayPtr()\<close>.\<close>

definition ArrayPtr_destroy :: "ArrayPtr \<Rightarrow> 'a heap \<Rightarrow> 'a fault + 'a heap" where
  "ArrayPtr_destroy this h = delete_array (raw_ptr_m this) h"

text \<open>\<^verbatim>\<open>ArrayPtr& operator=(ArrayPtr&& other)\<close>, on two references \<open>this\<close> and \<open>other\<close>
  into a store \<open>P\<close> of ArrayPtr objects.\<close>

definition ArrayPtr_move_assign ::
  "'r \<Rightarrow> 'r \<Rightarrow> ('r \<Rightarrow> ArrayPtr) \<Rightarrow> 'a heap \<Rightarrow>
     (error \<times> ('r \<Rightarrow> ArrayPtr) \<times> 'a heap) + (('r \<Rightarrow> ArrayPtr) \<times> 'a heap)" where
  "ArrayPtr_move_assign this other P h =
     (if this \<noteq> other then
        and_then (in_this P (delete_array (raw_ptr_m (P this)) h)) (\<lambda>h1.
          let P1 = P(this := ArrayPtr (raw_ptr_m (P other)));
              P2 = P1(other := ArrayPtr nullptr)
          in Inr (P2, h1))
      else Inr (P, h))"

text \<open>\<^verbatim>\<open>Release()\<close>: the raw pointer and the emptied owner.\<close>

definition Release :: "ArrayPtr \<Rightarrow> pointer \<times> ArrayPtr" where
  "Release this = (let raw_ptr = raw_ptr_m this in (raw_ptr, ArrayPtr nullptr))"

text \<open>\<^verbatim>\<open>operator[]\<close> (a reference to the element), \<^verbatim>\<open>explicit operator bool\<close>,
  \<^verbatim>\<open>Get()\<close> and \<^verbatim>\<open>swap\<close>.\<close>

definition ArrayPtr_index :: "ArrayPtr \<Rightarrow> size_t \<Rightarrow> 'a heap \<Rightarrow> 'a fault + pointer" where
  "ArrayPtr_index this index h = subscript (raw_ptr_m this) index h"

definition ArrayPtr_bool :: "ArrayPtr \<Rightarrow> bool" where
  "ArrayPtr_bool this = (raw_ptr_m this \<noteq> nullptr)"

definition Get :: "ArrayPtr \<Rightarrow> pointer" where
  "Get this = raw_ptr_m this"

definition ArrayPtr_swap :: "'r \<Rightarrow> 'r \<Rightarrow> ('r \<Rightarrow> ArrayPtr) \<Rightarrow> ('r \<Rightarrow> ArrayPtr)" where
  "ArrayPtr_swap this other P =
     (\<lambda>r. ArrayPtr (std_swap this other (\<lambda>q. raw_ptr_m (P q)) r))"

text \<open>\<^verbatim>\<open>a.swap(b)\<close> for a member and a local variable, which are two objects: what
  \<open>a\<close> and \<open>b\<close> hold afterwards.\<close>

definition ArrayPtr_swap2 :: "ArrayPtr \<Rightarrow> ArrayPtr \<Rightarrow> ArrayPtr \<times> ArrayPtr" where
  "ArrayPtr_swap2 a b =
     (let P = ArrayPtr_swap True False (\<lambda>r. if r then a else b) in (P True, P False))"

text \<open>The statements \<^verbatim>\<open>dst[i] = value\<close> and \<^verbatim>\<open>dst[i] = std::move(src[j])\<close> (also
  \<^verbatim>\<open>dst[i] = src[j]\<close>: a moved-from element keeps its value here, as one of a scalar type
  does).\<close>

definition put :: "ArrayPtr \<Rightarrow> size_t \<Rightarrow> 'a \<Rightarrow> 'a heap \<Rightarrow> 'a fault + 'a heap" where
  "put dst i x h = and_then (ArrayPtr_index dst i h) (\<lambda>r. assign_to r x h)"

definition move_elem :: "ArrayPtr \<Rightarrow> size_t \<Rightarrow> ArrayPtr \<Rightarrow> size_t \<Rightarrow> 'a heap \<Rightarrow> 'a fault + 'a heap" where
  "move_elem dst i src j h =
     and_then (ArrayPtr_index src j h) (\<lambda>s.
     and_then (deref s h) (\<lambda>x.
     put dst i x h))"

section \<open>SimpleVector (simple\_vector.h)\<close>

datatype ReserveProxyObj = ReserveProxyObj (capacity: size_t)

text \<open>The free function \<^verbatim>\<open>Reserve(size_t capacity_to_reserve)\<close>.\<close>

definition Reserve_proxy :: "size_t \<Rightarrow> ReserveProxyObj" where
  "Reserve_proxy capacity_to_reserve = ReserveProxyObj capacity_to_reserve"

record SimpleVector =
  size_m :: size_t
  capacity_m :: size_t
  items_m :: ArrayPtr

text \<open>A reference parameter (\<^verbatim>\<open>const Type&\<close>, \<^verbatim>\<open>Type&&\<close>, \<^verbatim>\<open>Args&&\<close>) designates an
  object of the caller: one outside the free store (a local variable or a temporary), given
  by the value it holds, or an element of a block, given by a pointer to it. The callee
  reads the object where the code uses the parameter, in the free store of that moment.\<close>

datatype 'a reference = Local 'a | Stored pointer

definition read_ref :: "'a reference \<Rightarrow> 'a heap \<Rightarrow> 'a fault + 'a" where
  "read_ref r h = (case r of Local x \<Rightarrow> Inr x | Stored p \<Rightarrow> deref p h)"

text \<open>
  A member function takes the object \<open>this\<close> and the free store and returns them as the
  call leaves them, after what the function returns; when it throws, it returns the
  exception with the object and the free store as they are then. \<open>T0\<close> is the value
  \<^verbatim>\<open>Type()\<close>. A constructor returns the new object; when it throws there is none.
\<close>

type_synonym 'a vfault = "error \<times> SimpleVector \<times> 'a heap"

text \<open>\<^verbatim>\<open>SimpleVector() noexcept = default\<close>.\<close>

definition SimpleVector_default :: SimpleVector where
  "SimpleVector_default = \<lparr>size_m = 0, capacity_m = 0, items_m = ArrayPtr_default\<rparr>"

text \<open>\<^verbatim>\<open>explicit SimpleVector(ReserveProxyObj proxy)\<close>.\<close>

definition SimpleVector_reserved ::
  "ReserveProxyObj \<Rightarrow> 'a heap \<Rightarrow> 'a fault + (SimpleVector \<times> 'a heap)" where
  "SimpleVector_reserved proxy h =
     and_then (if capacity proxy > 0 then new_array (capacity proxy) h else Inr (nullptr, h))
       (\<lambda>(p, h1).
          Inr (\<lparr>size_m = 0, capacity_m = capacity proxy, items_m = ArrayPtr_adopt p\<rparr>, h1))"

text \<open>\<^verbatim>\<open>explicit SimpleVector(size_t size)\<close> and
  \<^verbatim>\<open>SimpleVector(size_t size, const Type& value)\<close>. The constructor writes to its new
  block only, so the object \<^verbatim>\<open>value\<close> refers to holds one value throughout, \<open>val\<close>.\<close>

definition SimpleVector_sized :: "'a \<Rightarrow> size_t \<Rightarrow> 'a heap \<Rightarrow> 'a fault + (SimpleVector \<times> 'a heap)" where
  "SimpleVector_sized T0 sz h =
     and_then (ArrayPtr_sized sz h) (\<lambda>(items, h1).
     and_then (for_up 0 sz (\<lambda>i. put items i T0) h1) (\<lambda>h2.
     Inr (\<lparr>size_m = sz, capacity_m = sz, items_m = items\<rparr>, h2)))"

definition SimpleVector_filled :: "size_t \<Rightarrow> 'a \<Rightarrow> 'a heap \<Rightarrow> 'a fault + (SimpleVector \<times> 'a heap)" where
  "SimpleVector_filled sz val h =
     and_then (ArrayPtr_sized sz h) (\<lambda>(items, h1).
     and_then (for_up 0 sz (\<lambda>i. put items i val) h1) (\<lambda>h2.
     Inr (\<lparr>size_m = sz, capacity_m = sz, items_m = items\<rparr>, h2)))"

text \<open>\<^verbatim>\<open>SimpleVector(std::initializer_list<Type> init)\<close>: the range-for with its
  counter \<^verbatim>\<open>i++\<close>.\<close>

fun init_loop :: "'a list \<Rightarrow> size_t \<Rightarrow> ArrayPtr \<Rightarrow> 'a heap \<Rightarrow> 'a fault + 'a heap" where
  "init_loop [] i items h = Inr h"
| "init_loop (item # rest) i items h =
     and_then (put items i item h) (init_loop rest (i + 1) items)"

definition SimpleVector_init :: "'a list \<Rightarrow> 'a heap \<Rightarrow> 'a fault + (SimpleVector \<times> 'a heap)" where
  "SimpleVector_init init h =
     and_then (ArrayPtr_sized (word_of_nat (length init)) h) (\<lambda>(items, h1).
     and_then (init_loop init 0 items h1) (\<lambda>h2.
     Inr (\<lparr>size_m = word_of_nat (length init), capacity_m = word_of_nat (length init),
           items_m = items\<rparr>, h2)))"

text \<open>\<^verbatim>\<open>SimpleVector(const SimpleVector& other)\<close>.\<close>

definition SimpleVector_copy :: "SimpleVector \<Rightarrow> 'a heap \<Rightarrow> 'a fault + (SimpleVector \<times> 'a heap)" where
  "SimpleVector_copy other h =
     and_then (ArrayPtr_sized (size_m other) h) (\<lambda>(items, h1).
     and_then (for_up 0 (size_m other) (\<lambda>i. move_elem items i (items_m other) i) h1) (\<lambda>h2.
     Inr (\<lparr>size_m = size_m other, capacity_m = size_m other, items_m = items\<rparr>, h2)))"

text \<open>\<^verbatim>\<open>SimpleVector(SimpleVector&& other) noexcept\<close>: the new object and what is left
  of \<open>other\<close>.\<close>

definition SimpleVector_move :: "SimpleVector \<Rightarrow> SimpleVector \<times> SimpleVector" where
  "SimpleVector_move other =
     (let (items, other_items) = ArrayPtr_move (items_m other);
          this = \<lparr>size_m = size_m other, capacity_m = capacity_m other, items_m = items\<rparr>;
          other1 = other\<lparr>items_m := other_items\<rparr>;
          other2 = other1\<lparr>size_m := 0\<rparr>;
          other3 = other2\<lparr>capacity_m := 0\<rparr>
      in (this, other3))"

text \<open>\<^verbatim>\<open>~SimpleVector() = default\<close> destroys the member \<^verbatim>\<open>items_\<close>.\<close>

definition SimpleVector_destroy :: "SimpleVector \<Rightarrow> 'a heap \<Rightarrow> 'a fault + 'a heap" where
  "SimpleVector_destroy this h = ArrayPtr_destroy (items_m this) h"

text \<open>In the functions that grow the buffer, the local \<^verbatim>\<open>new_items\<close> is destroyed where
  its scope ends, after \<^verbatim>\<open>items_.swap(new_items)\<close> and the assignments that follow it.\<close>

definition Reserve :: "size_t \<Rightarrow> SimpleVector \<Rightarrow> 'a heap \<Rightarrow> 'a vfault + (SimpleVector \<times> 'a heap)" where
  "Reserve new_capacity this h =
     (if new_capacity \<le> capacity_m this then Inr (this, h)
      else
        and_then (in_this this (ArrayPtr_sized new_capacity h)) (\<lambda>(new_items, h1).
        and_then (in_this this
          (for_up 0 (size_m this) (\<lambda>i. move_elem new_items i (items_m this) i) h1)) (\<lambda>h2.
        let (items, new_items1) = ArrayPtr_swap2 (items_m this) new_items;
            this1 = this\<lparr>items_m := items\<rparr>;
            this2 = this1\<lparr>capacity_m := new_capacity\<rparr>
        in and_then (in_this this2 (ArrayPtr_destroy new_items1 h2)) (\<lambda>h3.
           Inr (this2, h3)))))"

definition GetSize :: "SimpleVector \<Rightarrow> size_t" where
  "GetSize this = size_m this"

definition GetCapacity :: "SimpleVector \<Rightarrow> size_t" where
  "GetCapacity this = capacity_m this"

definition IsEmpty :: "SimpleVector \<Rightarrow> bool" where
  "IsEmpty this = (size_m this = 0)"

text \<open>\<^verbatim>\<open>operator[]\<close> and \<^verbatim>\<open>At\<close> return a reference to the element; they change neither
  the object nor the free store.\<close>

definition SimpleVector_index :: "size_t \<Rightarrow> SimpleVector \<Rightarrow> 'a heap \<Rightarrow> 'a vfault + pointer" where
  "SimpleVector_index index this h =
     (if index < size_m this then in_this this (ArrayPtr_index (items_m this) index h)
      else Inl (assertion_failed, this, h))"

definition At :: "size_t \<Rightarrow> SimpleVector \<Rightarrow> 'a heap \<Rightarrow> 'a vfault + pointer" where
  "At index this h =
     (if index \<ge> size_m this then Inl (out_of_range, this, h)
      else in_this this (ArrayPtr_index (items_m this) index h))"

definition Clear :: "SimpleVector \<Rightarrow> SimpleVector" where
  "Clear this = this\<lparr>size_m := 0\<rparr>"

definition Resize :: "'a \<Rightarrow> size_t \<Rightarrow> SimpleVector \<Rightarrow> 'a heap \<Rightarrow> 'a vfault + (SimpleVector \<times> 'a heap)" where
  "Resize T0 new_size this h =
     (if new_size \<le> size_m this then Inr (this\<lparr>size_m := new_size\<rparr>, h)
      else if new_size \<le> capacity_m this then
        and_then (in_this this
          (for_up (size_m this) new_size (\<lambda>i. put (items_m this) i T0) h)) (\<lambda>h1.
        Inr (this\<lparr>size_m := new_size\<rparr>, h1))
      else
        and_then (in_this this (ArrayPtr_sized new_size h)) (\<lambda>(new_items, h1).
        and_then (in_this this
          (for_up 0 (size_m this) (\<lambda>i. move_elem new_items i (items_m this) i) h1)) (\<lambda>h2.
        and_then (in_this this
          (for_up (size_m this) new_size (\<lambda>i. put new_items i T0) h2)) (\<lambda>h3.
        let (items, new_items1) = ArrayPtr_swap2 (items_m this) new_items;
            this1 = this\<lparr>items_m := items\<rparr>;
            this2 = this1\<lparr>size_m := new_size\<rparr>;
            this3 = this2\<lparr>capacity_m := new_size\<rparr>
        in and_then (in_this this3 (ArrayPtr_destroy new_items1 h3)) (\<lambda>h4.
           Inr (this3, h4))))))"

text \<open>\<^verbatim>\<open>begin()\<close> and \<^verbatim>\<open>end()\<close> (\<^verbatim>\<open>cbegin()\<close> and \<^verbatim>\<open>cend()\<close> are the same).\<close>

definition begin_it :: "SimpleVector \<Rightarrow> pointer" where
  "begin_it this = Get (items_m this)"

definition end_it :: "SimpleVector \<Rightarrow> 'a heap \<Rightarrow> 'a fault + pointer" where
  "end_it this h = ptr_add (Get (items_m this)) (size_m this) h"

text \<open>\<^verbatim>\<open>void swap(SimpleVector& other) noexcept\<close>, on two references into a store \<open>V\<close>
  of vectors (\<open>this\<close> and \<open>other\<close> may be the same object).\<close>

definition SimpleVector_swap :: "'r \<Rightarrow> 'r \<Rightarrow> ('r \<Rightarrow> SimpleVector) \<Rightarrow> ('r \<Rightarrow> SimpleVector)" where
  "SimpleVector_swap this other V =
     (let P = ArrayPtr_swap this other (\<lambda>r. items_m (V r));
          V1 = (\<lambda>r. (V r)\<lparr>items_m := P r\<rparr>);
          S = std_swap this other (\<lambda>r. size_m (V1 r));
          V2 = (\<lambda>r. (V1 r)\<lparr>size_m := S r\<rparr>);
          C = std_swap this other (\<lambda>r. capacity_m (V2 r));
          V3 = (\<lambda>r. (V2 r)\<lparr>capacity_m := C r\<rparr>)
      in V3)"

text \<open>\<^verbatim>\<open>operator=(const SimpleVector& rhs)\<close>: the local \<^verbatim>\<open>temp\<close> is an object of its
  own (the reference \<open>None\<close> beside the store's \<open>Some r\<close>), destroyed when its scope is
  left.\<close>

definition copy_assign ::
  "'r \<Rightarrow> 'r \<Rightarrow> ('r \<Rightarrow> SimpleVector) \<Rightarrow> 'a heap \<Rightarrow>
     (error \<times> ('r \<Rightarrow> SimpleVector) \<times> 'a heap) + (('r \<Rightarrow> SimpleVector) \<times> 'a heap)" where
  "copy_assign this rhs V h =
     (if this \<noteq> rhs then
        and_then (in_this V (SimpleVector_copy (V rhs) h)) (\<lambda>(temp, h1).
          let W = SimpleVector_swap (Some this) None
                    (\<lambda>r. case r of None \<Rightarrow> temp | Some q \<Rightarrow> V q);
              V1 = (\<lambda>q. W (Some q))
          in and_then (in_this V1 (SimpleVector_destroy (W None) h1)) (\<lambda>h2.
             Inr (V1, h2)))
      else Inr (V, h))"

text \<open>\<^verbatim>\<open>operator=(SimpleVector&& rhs) noexcept\<close>: the member \<^verbatim>\<open>items_\<close> of the vector
  at \<open>r\<close> is the ArrayPtr at \<open>r\<close>.\<close>

definition move_assign ::
  "'r \<Rightarrow> 'r \<Rightarrow> ('r \<Rightarrow> SimpleVector) \<Rightarrow> 'a heap \<Rightarrow>
     (error \<times> ('r \<Rightarrow> SimpleVector) \<times> 'a heap) + (('r \<Rightarrow> SimpleVector) \<times> 'a heap)" where
  "move_assign this rhs V h =
     (if this \<noteq> rhs then
        (case ArrayPtr_move_assign this rhs (\<lambda>r. items_m (V r)) h of
           Inl (e, P, h1) \<Rightarrow> Inl (e, (\<lambda>r. (V r)\<lparr>items_m := P r\<rparr>), h1)
         | Inr (P, h1) \<Rightarrow>
             let V1 = (\<lambda>r. (V r)\<lparr>items_m := P r\<rparr>);
                 V2 = V1(this := (V1 this)\<lparr>size_m := size_m (V1 rhs)\<rparr>);
                 V3 = V2(this := (V2 this)\<lparr>capacity_m := capacity_m (V2 rhs)\<rparr>);
                 V4 = V3(rhs := (V3 rhs)\<lparr>size_m := 0\<rparr>);
                 V5 = V4(rhs := (V4 rhs)\<lparr>capacity_m := 0\<rparr>)
             in Inr (V5, h1))
      else Inr (V, h))"

text \<open>\<^verbatim>\<open>EmplaceBack\<close> returns a reference to the new element; \<^verbatim>\<open>PushBack\<close> returns
  nothing. The parameter \<^verbatim>\<open>args\<close> (one argument, of the element type) is read in
  \<^verbatim>\<open>Type(std::forward<Args>(args)...)\<close>, after the \<^verbatim>\<open>if\<close> block, at whose end the local
  \<^verbatim>\<open>new_items\<close> is destroyed with the old buffer. In \<^verbatim>\<open>Emplace\<close> it is read after the
  elements before the position have been moved, or after the in-place shift.\<close>

definition EmplaceBack ::
  "'a reference \<Rightarrow> SimpleVector \<Rightarrow> 'a heap \<Rightarrow>
     'a vfault + (pointer \<times> SimpleVector \<times> 'a heap)" where
  "EmplaceBack args this h =
     and_then
       (if size_m this \<ge> capacity_m this then
          (let new_capacity = (if capacity_m this = 0 then 1 else capacity_m this * 2) in
           and_then (in_this this (ArrayPtr_sized new_capacity h)) (\<lambda>(new_items, h1).
           and_then (in_this this
             (for_up 0 (size_m this) (\<lambda>i. move_elem new_items i (items_m this) i) h1)) (\<lambda>h2.
           let (items, new_items1) = ArrayPtr_swap2 (items_m this) new_items;
               this1 = this\<lparr>items_m := items\<rparr>;
               this2 = this1\<lparr>capacity_m := new_capacity\<rparr>
           in and_then (in_this this2 (ArrayPtr_destroy new_items1 h2)) (\<lambda>h3.
              Inr (this2, h3)))))
        else Inr (this, h))
       (\<lambda>(this3, h4).
          and_then (in_this this3 (read_ref args h4)) (\<lambda>x.
          and_then (in_this this3 (put (items_m this3) (size_m this3) x h4)) (\<lambda>h5.
          and_then (in_this this3 (ArrayPtr_index (items_m this3) (size_m this3) h5)) (\<lambda>r.
          Inr (r, this3\<lparr>size_m := size_m this3 + 1\<rparr>, h5)))))"

definition PushBack :: "'a reference \<Rightarrow> SimpleVector \<Rightarrow> 'a heap \<Rightarrow> 'a vfault + (SimpleVector \<times> 'a heap)" where
  "PushBack item this h = and_then (EmplaceBack item this h) (\<lambda>(r, this1, h1). Inr (this1, h1))"

definition Emplace ::
  "pointer \<Rightarrow> 'a reference \<Rightarrow> SimpleVector \<Rightarrow> 'a heap \<Rightarrow>
     'a vfault + (pointer \<times> SimpleVector \<times> 'a heap)" where
  "Emplace pos args this h =
     and_then (in_this this (ptr_diff pos (begin_it this) h)) (\<lambda>offset.
     and_then
       (if size_m this \<ge> capacity_m this then
          (let new_capacity = (if capacity_m this = 0 then 1 else capacity_m this * 2) in
           and_then (in_this this (ArrayPtr_sized new_capacity h)) (\<lambda>(new_items, h1).
           and_then (in_this this
             (for_up 0 offset (\<lambda>i. move_elem new_items i (items_m this) i) h1)) (\<lambda>h2.
           and_then (in_this this (read_ref args h2)) (\<lambda>x.
           and_then (in_this this (put new_items offset x h2)) (\<lambda>h3.
           and_then (in_this this
             (for_up offset (size_m this)
                (\<lambda>i. move_elem new_items (i + 1) (items_m this) i) h3)) (\<lambda>h4.
           let (items, new_items1) = ArrayPtr_swap2 (items_m this) new_items;
               this1 = this\<lparr>items_m := items\<rparr>;
               this2 = this1\<lparr>capacity_m := new_capacity\<rparr>
           in and_then (in_this this2 (ArrayPtr_destroy new_items1 h4)) (\<lambda>h5.
              Inr (this2, h5))))))))
        else
          and_then (in_this this
            (for_down (size_m this) offset
               (\<lambda>i. move_elem (items_m this) i (items_m this) (i - 1)) h)) (\<lambda>h1.
          and_then (in_this this (read_ref args h1)) (\<lambda>x.
          and_then (in_this this (put (items_m this) offset x h1)) (\<lambda>h2.
          Inr (this, h2)))))
       (\<lambda>(this3, h6).
          let this4 = this3\<lparr>size_m := size_m this3 + 1\<rparr> in
          and_then (in_this this4 (ptr_add (begin_it this4) offset h6)) (\<lambda>it.
          Inr (it, this4, h6))))"

definition Insert ::
  "pointer \<Rightarrow> 'a reference \<Rightarrow> SimpleVector \<Rightarrow> 'a heap \<Rightarrow>
     'a vfault + (pointer \<times> SimpleVector \<times> 'a heap)" where
  "Insert pos val this h = Emplace pos val this h"

definition PopBack :: "SimpleVector \<Rightarrow> SimpleVector" where
  "PopBack this = (if size_m this > 0 then this\<lparr>size_m := size_m this - 1\<rparr> else this)"

definition Erase ::
  "pointer \<Rightarrow> SimpleVector \<Rightarrow> 'a heap \<Rightarrow> 'a vfault + (pointer \<times> SimpleVector \<times> 'a heap)" where
  "Erase pos this h =
     and_then (in_this this (ptr_diff pos (begin_it this) h)) (\<lambda>offset.
     and_then (in_this this
       (for_up offset (size_m this - 1)
          (\<lambda>i. move_elem (items_m this) i (items_m this) (i + 1)) h)) (\<lambda>h1.
     let this1 = this\<lparr>size_m := size_m this - 1\<rparr> in
     and_then (in_this this1 (ptr_add (begin_it this1) offset h1)) (\<lambda>it.
     Inr (it, this1, h1))))"

section \<open>What a vector shows\<close>

text \<open>
  The elements a traversal from \<^verbatim>\<open>begin()\<close> to \<^verbatim>\<open>end()\<close> reads, and the
  representation invariant: the size is at most the capacity, and \<^verbatim>\<open>items_\<close> is null with
  capacity 0 or owns a live block of \<^verbatim>\<open>capacity_\<close> elements.
\<close>

definition elements :: "SimpleVector \<Rightarrow> 'a heap \<Rightarrow> 'a list" where
  "elements v h =
     (case raw_ptr_m (items_m v) of
        nullptr \<Rightarrow> []
      | Ptr a k \<Rightarrow>
          (case block_at a h of
             None \<Rightarrow> []
           | Some b \<Rightarrow> take (unat (size_m v)) (drop k b)))"

definition valid :: "SimpleVector \<Rightarrow> 'a heap \<Rightarrow> bool" where
  "valid v h =
     (size_m v \<le> capacity_m v \<and>
      (case raw_ptr_m (items_m v) of
         nullptr \<Rightarrow> capacity_m v = 0
       | Ptr a k \<Rightarrow>
           k = 0 \<and>
           (case block_at a h of
              None \<Rightarrow> False
            | Some b \<Rightarrow> length b = unat (capacity_m v) \<and> length b \<le> max_array)))"

section \<open>Vocabulary of the proofs\<close>

text \<open>
  Heaps the proofs name: a block overwritten, a block allocated by \<^verbatim>\<open>new Type[n]\<close>, a
  block deleted; whether an allocation succeeds; the whole block a vector owns.
\<close>

definition set_block :: "nat \<Rightarrow> 'a list \<Rightarrow> 'a heap \<Rightarrow> 'a heap" where
  "set_block a b h = h\<lparr>blocks := (blocks h)[a := Some b]\<rparr>"

definition can_alloc :: "size_t \<Rightarrow> 'a heap \<Rightarrow> bool" where
  "can_alloc n h = (unat n \<le> max_array \<and> unat n \<le> avail h)"

definition allocated :: "size_t \<Rightarrow> 'a heap \<Rightarrow> 'a heap" where
  "allocated n h =
     h\<lparr>blocks := blocks h @ [Some (map (fresh h) [0..<unat n])], avail := avail h - unat n\<rparr>"

definition released :: "pointer \<Rightarrow> 'a heap \<Rightarrow> 'a heap" where
  "released p h =
     (case p of
        nullptr \<Rightarrow> h
      | Ptr a k \<Rightarrow>
          h\<lparr>blocks := (blocks h)[a := None],
            avail := avail h + (case block_at a h of None \<Rightarrow> 0 | Some b \<Rightarrow> length b)\<rparr>)"

definition buffer :: "SimpleVector \<Rightarrow> 'a heap \<Rightarrow> 'a list" where
  "buffer v h =
     (case raw_ptr_m (items_m v) of
        nullptr \<Rightarrow> []
      | Ptr a k \<Rightarrow> (case block_at a h of None \<Rightarrow> [] | Some b \<Rightarrow> b))"

text \<open>The heap after a vector \<open>v\<close> has moved into a new block of \<open>n\<close> elements that holds
  \<open>nb\<close>, its old block deleted.\<close>

definition grown :: "SimpleVector \<Rightarrow> size_t \<Rightarrow> 'a list \<Rightarrow> 'a heap \<Rightarrow> 'a heap" where
  "grown v n nb h =
     released (raw_ptr_m (items_m v)) (set_block (length (blocks h)) nb (allocated n h))"

text \<open>What a call on \<open>v\<close> may touch: \<open>v\<close> keeps its block, or has none, or has one
  allocated during the call; every block that was not \<open>v\<close>'s is as it was.\<close>

definition frame :: "SimpleVector \<Rightarrow> 'a heap \<Rightarrow> SimpleVector \<Rightarrow> 'a heap \<Rightarrow> bool" where
  "frame v h v' h' =
     (length (blocks h) \<le> length (blocks h') \<and> fresh h' = fresh h \<and>
      (items_m v' = items_m v \<or> items_m v' = ArrayPtr nullptr \<or>
       (\<exists>d. length (blocks h) \<le> d \<and> items_m v' = ArrayPtr (Ptr d 0))) \<and>
      (\<forall>a<length (blocks h). items_m v \<noteq> ArrayPtr (Ptr a 0) \<longrightarrow> block_at a h' = block_at a h))"

text \<open>A sequence of \<^verbatim>\<open>PushBack\<close> calls on one vector, with arguments outside the free
  store, and the capacities the doubling
  policy reaches from 0: with \<open>s\<close> elements, 0 when \<open>s = 0\<close> and else the power of two
  \<open>c\<close> with \<open>s \<le> c < 2 * s\<close>.\<close>

fun push_all :: "'a list \<Rightarrow> SimpleVector \<Rightarrow> 'a heap \<Rightarrow> 'a vfault + (SimpleVector \<times> 'a heap)" where
  "push_all [] v h = Inr (v, h)"
| "push_all (x # xs) v h = and_then (PushBack (Local x) v h) (\<lambda>(v1, h1). push_all xs v1 h1)"

definition doubling :: "nat \<Rightarrow> nat \<Rightarrow> bool" where
  "doubling c s = ((c = 0 \<and> s = 0) \<or> (\<exists>k. c = 2 ^ k \<and> s \<le> c \<and> c < 2 * s))"

text \<open>The calls that change a vector, as a caller writes them: a position is
  \<^verbatim>\<open>begin() + k\<close>, the argument of \<^verbatim>\<open>PushBack\<close> and \<^verbatim>\<open>Insert\<close> is any reference, and
  an element is assigned through the reference that \<^verbatim>\<open>At\<close> or \<^verbatim>\<open>operator[]\<close> returns.\<close>

datatype 'a mutation =
    Do_Reserve size_t
  | Do_Resize 'a size_t
  | Do_Clear
  | Do_PushBack "'a reference"
  | Do_Insert size_t "'a reference"
  | Do_PopBack
  | Do_Erase size_t
  | Do_At_assign size_t 'a
  | Do_index_assign size_t 'a

fun mutate :: "'a mutation \<Rightarrow> SimpleVector \<Rightarrow> 'a heap \<Rightarrow> 'a vfault + (SimpleVector \<times> 'a heap)" where
  "mutate (Do_Reserve n) v h = Reserve n v h"
| "mutate (Do_Resize T0 n) v h = Resize T0 n v h"
| "mutate Do_Clear v h = Inr (Clear v, h)"
| "mutate (Do_PushBack x) v h = PushBack x v h"
| "mutate (Do_Insert k x) v h =
     and_then (in_this v (ptr_add (begin_it v) k h)) (\<lambda>pos.
     and_then (Insert pos x v h) (\<lambda>(it, v1, h1). Inr (v1, h1)))"
| "mutate Do_PopBack v h = Inr (PopBack v, h)"
| "mutate (Do_Erase k) v h =
     and_then (in_this v (ptr_add (begin_it v) k h)) (\<lambda>pos.
     and_then (Erase pos v h) (\<lambda>(it, v1, h1). Inr (v1, h1)))"
| "mutate (Do_At_assign i x) v h =
     and_then (At i v h) (\<lambda>r.
     and_then (in_this v (assign_to r x h)) (\<lambda>h1. Inr (v, h1)))"
| "mutate (Do_index_assign i x) v h =
     and_then (SimpleVector_index i v h) (\<lambda>r.
     and_then (in_this v (assign_to r x h)) (\<lambda>h1. Inr (v, h1)))"

fun mutate_all :: "'a mutation list \<Rightarrow> SimpleVector \<Rightarrow> 'a heap \<Rightarrow> 'a vfault + (SimpleVector \<times> 'a heap)" where
  "mutate_all [] v h = Inr (v, h)"
| "mutate_all (m # ms) v h = and_then (mutate m v h) (\<lambda>(v1, h1). mutate_all ms v1 h1)"

text \<open>Two vectors that do not share a block.\<close>

definition apart :: "SimpleVector \<Rightarrow> SimpleVector \<Rightarrow> bool" where
  "apart u v = (items_m u \<noteq> items_m v \<or> items_m u = ArrayPtr nullptr)"

text \<open>An ArrayPtr that \<^verbatim>\<open>delete[]\<close> accepts: empty, or pointing at the first element of a
  block that has not been deleted.\<close>

definition owner :: "ArrayPtr \<Rightarrow> 'a heap \<Rightarrow> bool" where
  "owner p h =
     (case raw_ptr_m p of nullptr \<Rightarrow> True | Ptr a k \<Rightarrow> k = 0 \<and> block_at a h \<noteq> None)"

text \<open>How a call may fail. A result is \<open>quiet\<close> when it fails with undefined behaviour
  only, and \<open>harmless\<close> for a state \<open>s\<close> when every exception it throws leaves \<open>s\<close>.\<close>

definition quiet :: "(error \<times> 's) + 'b \<Rightarrow> bool" where
  "quiet m = (case m of Inl (e, s) \<Rightarrow> e = undefined_behaviour | Inr x \<Rightarrow> True)"

definition harmless :: "'s \<Rightarrow> (error \<times> 's) + 'b \<Rightarrow> bool" where
  "harmless s m = (case m of Inl (e, s') \<Rightarrow> e = undefined_behaviour \<or> s' = s | Inr x \<Rightarrow> True)"

text \<open>The constructors that take no other vector, as a declaration writes them.\<close>

datatype 'a construction =
    New_default
  | New_reserved size_t
  | New_sized 'a size_t
  | New_filled size_t 'a
  | New_init "'a list"

fun construct :: "'a construction \<Rightarrow> 'a heap \<Rightarrow> 'a fault + (SimpleVector \<times> 'a heap)" where
  "construct New_default h = Inr (SimpleVector_default, h)"
| "construct (New_reserved n) h = SimpleVector_reserved (Reserve_proxy n) h"
| "construct (New_sized T0 n) h = SimpleVector_sized T0 n h"
| "construct (New_filled n x) h = SimpleVector_filled n x h"
| "construct (New_init xs) h = SimpleVector_init xs h"

text \<open>A program's vectors: the free store, the vector objects by name (a number), and
  which of them are within their lifetime.\<close>

record 'a world =
  free_store :: "'a heap"
  vectors :: "nat \<Rightarrow> SimpleVector"
  alive :: "nat \<Rightarrow> bool"

text \<open>The public operations, on the objects they name: a declaration with one of the
  constructors, the end of a lifetime (the destructor), a call that changes one vector,
  \<^verbatim>\<open>swap\<close> and the two assignments.\<close>

datatype 'a operation =
    Declare nat "'a construction"
  | Declare_copy nat nat
  | Declare_move nat nat
  | Leave_scope nat
  | Change nat "'a mutation"
  | Swap_with nat nat
  | Assign nat nat
  | Assign_move nat nat

text \<open>An exception that is caught leaves the program in the state of the throw. After
  undefined behaviour, or a failed \<^verbatim>\<open>assert\<close> (which aborts), there is no state.\<close>

definition caught :: "error \<Rightarrow> 'w \<Rightarrow> 'w option" where
  "caught e w = (if e = bad_alloc \<or> e = out_of_range then Some w else None)"

fun call :: "'a operation \<Rightarrow> 'a world \<Rightarrow> 'a world option" where
  "call (Declare i c) w =
     (if alive w i then None
      else case construct c (free_store w) of
             Inl (e, h) \<Rightarrow> caught e (w\<lparr>free_store := h\<rparr>)
           | Inr (v, h) \<Rightarrow>
               Some (w\<lparr>free_store := h, vectors := (vectors w)(i := v),
                       alive := (alive w)(i := True)\<rparr>))"
| "call (Declare_copy i j) w =
     (if alive w i \<or> \<not> alive w j then None
      else case SimpleVector_copy (vectors w j) (free_store w) of
             Inl (e, h) \<Rightarrow> caught e (w\<lparr>free_store := h\<rparr>)
           | Inr (v, h) \<Rightarrow>
               Some (w\<lparr>free_store := h, vectors := (vectors w)(i := v),
                       alive := (alive w)(i := True)\<rparr>))"
| "call (Declare_move i j) w =
     (if alive w i \<or> \<not> alive w j then None
      else let (v, other) = SimpleVector_move (vectors w j)
           in Some (w\<lparr>vectors := (vectors w)(j := other, i := v),
                      alive := (alive w)(i := True)\<rparr>))"
| "call (Leave_scope i) w =
     (if \<not> alive w i then None
      else case SimpleVector_destroy (vectors w i) (free_store w) of
             Inl (e, h) \<Rightarrow> None
           | Inr h \<Rightarrow> Some (w\<lparr>free_store := h, alive := (alive w)(i := False)\<rparr>))"
| "call (Change i m) w =
     (if \<not> alive w i then None
      else case mutate m (vectors w i) (free_store w) of
             Inl (e, v, h) \<Rightarrow> caught e (w\<lparr>free_store := h, vectors := (vectors w)(i := v)\<rparr>)
           | Inr (v, h) \<Rightarrow> Some (w\<lparr>free_store := h, vectors := (vectors w)(i := v)\<rparr>))"
| "call (Swap_with i j) w =
     (if \<not> alive w i \<or> \<not> alive w j then None
      else Some (w\<lparr>vectors := SimpleVector_swap i j (vectors w)\<rparr>))"
| "call (Assign i j) w =
     (if \<not> alive w i \<or> \<not> alive w j then None
      else case copy_assign i j (vectors w) (free_store w) of
             Inl (e, V, h) \<Rightarrow> caught e (w\<lparr>free_store := h, vectors := V\<rparr>)
           | Inr (V, h) \<Rightarrow> Some (w\<lparr>free_store := h, vectors := V\<rparr>))"
| "call (Assign_move i j) w =
     (if \<not> alive w i \<or> \<not> alive w j then None
      else case move_assign i j (vectors w) (free_store w) of
             Inl (e, V, h) \<Rightarrow> caught e (w\<lparr>free_store := h, vectors := V\<rparr>)
           | Inr (V, h) \<Rightarrow> Some (w\<lparr>free_store := h, vectors := V\<rparr>))"

fun run :: "'a operation list \<Rightarrow> 'a world \<Rightarrow> 'a world option" where
  "run [] w = Some w"
| "run (c # cs) w = (case call c w of None \<Rightarrow> None | Some w1 \<Rightarrow> run cs w1)"

text \<open>Before the first declaration no vector is alive.\<close>

definition program_start :: "'a heap \<Rightarrow> 'a world" where
  "program_start h =
     \<lparr>free_store = h, vectors = (\<lambda>i. SimpleVector_default), alive = (\<lambda>i. False)\<rparr>"

text \<open>The invariant of a world: every vector alive is valid, and no two share a block.\<close>

definition sound :: "'a world \<Rightarrow> bool" where
  "sound w =
     ((\<forall>i. alive w i \<longrightarrow> valid (vectors w i) (free_store w)) \<and>
      (\<forall>i j. alive w i \<and> alive w j \<and> i \<noteq> j \<longrightarrow> apart (vectors w i) (vectors w j)))"

section \<open>Loops and the free store\<close>

lemma read_ref_Local [simp]: "read_ref (Local x) h = Inr x"
  by (simp add: read_ref_def)

lemma and_then_Inl [simp]: "and_then (Inl e) f = Inl e"
  by (simp add: and_then_def)

lemma and_then_Inr [simp]: "and_then (Inr x) f = f x"
  by (simp add: and_then_def)

lemma and_then_eq_Inr:
  "and_then m f = Inr y \<longleftrightarrow> (\<exists>x. m = Inr x \<and> f x = Inr y)"
  by (cases m) simp_all

declare for_up.simps [simp del] for_down.simps [simp del]

lemma word_less_Suc: "(i::size_t) < n \<Longrightarrow> unat (i + 1) = Suc (unat i)"
  by unat_arith

lemma word_less_inc_le: "(i::size_t) < n \<Longrightarrow> i + 1 \<le> n"
  by unat_arith

lemma word_gr_pred: "(n::size_t) < i \<Longrightarrow> unat (i - 1) = unat i - 1 \<and> 0 < unat i \<and> n \<le> i - 1"
  by unat_arith

lemma for_up_done: "\<not> i < n \<Longrightarrow> for_up i n body s = Inr s"
  by (simp add: for_up.simps)

lemma for_up_rule:
  assumes "I i s" and "i \<le> n"
    and "\<And>j t. i \<le> j \<Longrightarrow> j < n \<Longrightarrow> I j t \<Longrightarrow> \<exists>t'. body j t = Inr t' \<and> I (j + 1) t'"
  shows "\<exists>s'. for_up i n body s = Inr s' \<and> I n s'"
  using assms
proof (induction i n body s rule: for_up.induct)
  case (1 i n body s)
  show ?case
  proof (cases "i < n")
    case True
    from "1.prems"(3) [of i s] True "1.prems"(1)
    obtain t' where t': "body i s = Inr t'" "I (i + 1) t'" by auto
    have le: "i + 1 \<le> n" using True by (rule word_less_inc_le)
    have "\<exists>s'. for_up (i + 1) n body t' = Inr s' \<and> I n s'"
    proof (rule "1.IH" [OF True t'(2) le])
      fix j t assume "i + 1 \<le> j" "j < n" "I j t"
      moreover from \<open>i + 1 \<le> j\<close> True have "i \<le> j" by unat_arith
      ultimately show "\<exists>t'. body j t = Inr t' \<and> I (j + 1) t'"
        using "1.prems"(3) by blast
    qed
    with True t'(1) show ?thesis
      by (subst for_up.simps) simp
  next
    case False
    with "1.prems"(2) have "i = n" by simp
    with "1.prems"(1) show ?thesis
      by (simp add: for_up_done)
  qed
qed

lemma for_down_done: "\<not> n < i \<Longrightarrow> for_down i n body s = Inr s"
  by (simp add: for_down.simps)

lemma for_down_rule:
  assumes "I i s" and "n \<le> i"
    and "\<And>j t. n < j \<Longrightarrow> j \<le> i \<Longrightarrow> I j t \<Longrightarrow> \<exists>t'. body j t = Inr t' \<and> I (j - 1) t'"
  shows "\<exists>s'. for_down i n body s = Inr s' \<and> I n s'"
  using assms
proof (induction i n body s rule: for_down.induct)
  case (1 i n body s)
  show ?case
  proof (cases "n < i")
    case True
    from "1.prems"(3) [of i s] True "1.prems"(1)
    obtain t' where t': "body i s = Inr t'" "I (i - 1) t'" by auto
    have le: "n \<le> i - 1" using True by (simp add: word_gr_pred)
    have "\<exists>s'. for_down (i - 1) n body t' = Inr s' \<and> I n s'"
    proof (rule "1.IH" [OF True t'(2) le])
      fix j t assume "n < j" "j \<le> i - 1" "I j t"
      moreover from \<open>j \<le> i - 1\<close> True have "j \<le> i" by unat_arith
      ultimately show "\<exists>t'. body j t = Inr t' \<and> I (j - 1) t'"
        using "1.prems"(3) by blast
    qed
    with True t'(1) show ?thesis
      by (subst for_down.simps) simp
  next
    case False
    with "1.prems"(2) have "i = n" by simp
    with "1.prems"(1) show ?thesis
      by (simp add: for_down_done)
  qed
qed

lemma for_up_InrD:
  assumes "for_up i n body s = Inr s'" and "i \<le> j" and "j < n" and "I s"
    and "\<forall>k t t'. I t \<longrightarrow> body k t = Inr t' \<longrightarrow> I t'"
  shows "\<exists>t t'. I t \<and> body j t = Inr t'"
  using assms
proof (induction i n body s rule: for_up.induct)
  case (1 i n body s)
  from "1.prems"(2,3) have lt: "i < n" by simp
  from "1.prems"(1) lt obtain t where t: "body i s = Inr t" "for_up (i + 1) n body t = Inr s'"
    by (subst (asm) for_up.simps) (auto simp: and_then_eq_Inr)
  show ?case
  proof (cases "i = j")
    case True
    with t(1) "1.prems"(4) show ?thesis by blast
  next
    case False
    with "1.prems"(2) lt have "i + 1 \<le> j" by unat_arith
    moreover have "I t" using "1.prems"(4,5) t(1) by blast
    ultimately show ?thesis
      using "1.IH" [OF lt t(2) _ "1.prems"(3)] "1.prems"(5) by blast
  qed
qed

lemma block_at_set_block:
  "block_at a' (set_block a b h) = (if a' = a \<and> a < length (blocks h) then Some b else block_at a' h)"
  by (simp add: block_at_def set_block_def nth_list_update)

lemma set_block_twice [simp]: "set_block a b2 (set_block a b1 h) = set_block a b2 h"
  by (simp add: set_block_def)

lemma set_block_fields [simp]:
  "avail (set_block a b h) = avail h" "fresh (set_block a b h) = fresh h"
  "length (blocks (set_block a b h)) = length (blocks h)"
  by (simp_all add: set_block_def)

lemma block_at_live: "block_at a h = Some b \<Longrightarrow> a < length (blocks h)"
  by (simp add: block_at_def split: if_splits)

lemma set_block_same: "block_at a h = Some b \<Longrightarrow> set_block a b h = h"
  by (simp add: set_block_def block_at_def list_update_same_conv split: if_splits)

lemma put_block:
  "block_at a h = Some b \<Longrightarrow> unat i < length b \<Longrightarrow>
   put (ArrayPtr (Ptr a 0)) i x h = Inr (set_block a (b[unat i := x]) h)"
  by (simp add: put_def ArrayPtr_index_def subscript_def assign_to_def set_block_def)

lemma move_elem_block:
  "block_at s h = Some bs \<Longrightarrow> unat j < length bs \<Longrightarrow> block_at d h = Some bd \<Longrightarrow>
   unat i < length bd \<Longrightarrow>
   move_elem (ArrayPtr (Ptr d 0)) i (ArrayPtr (Ptr s 0)) j h =
     Inr (set_block d (bd[unat i := bs ! unat j]) h)"
  by (simp add: move_elem_def ArrayPtr_index_def subscript_def deref_def put_block)

lemma map_upt_update:
  "k < n \<Longrightarrow> (map f [0..<n])[k := x] = map (f(k := x)) [0..<n]"
  by (rule nth_equalityI) (auto simp: nth_list_update)

lemma map_upt_cong: "(\<And>k. k < n \<Longrightarrow> f k = g k) \<Longrightarrow> map f [0..<n] = map g [0..<n]"
  by simp

text \<open>The loops of the source: \<^verbatim>\<open>dst[ix j] = src[j]\<close> between two blocks, the shifts inside
  one block, the fills.\<close>

lemma relocate_loop:
  assumes src: "block_at a h = Some bs" and dst: "block_at d h = Some bd" and ne: "a \<noteq> d"
    and le: "i \<le> n" and ns: "unat n \<le> length bs" and nd: "unat n + s \<le> length bd"
    and ix: "\<And>j. i \<le> j \<Longrightarrow> j < n \<Longrightarrow> unat (ix j) = unat j + s"
  shows "for_up i n (\<lambda>j. move_elem (ArrayPtr (Ptr d 0)) (ix j) (ArrayPtr (Ptr a 0)) j) h =
         Inr (set_block d (map (\<lambda>k. if unat i + s \<le> k \<and> k < unat n + s then bs ! (k - s) else bd ! k)
                  [0..<length bd]) h)"
proof -
  let ?f = "\<lambda>j k. if unat i + s \<le> k \<and> k < unat j + s then bs ! (k - s) else bd ! k"
  let ?I = "\<lambda>j t. t = set_block d (map (?f j) [0..<length bd]) h"
  have "\<exists>s'. for_up i n (\<lambda>j. move_elem (ArrayPtr (Ptr d 0)) (ix j) (ArrayPtr (Ptr a 0)) j) h = Inr s' \<and> ?I n s'"
  proof (rule for_up_rule [where I = ?I, OF _ le])
    have "map (?f i) [0..<length bd] = bd"
      by (rule nth_equalityI) auto
    then show "?I i h" using dst by (simp add: set_block_same)
  next
    fix j t assume j: "i \<le> j" "j < n" and t: "?I j t"
    have uj: "unat (j + 1) = Suc (unat j)" using j(2) by (rule word_less_Suc)
    have jn: "unat j < unat n" using j(2) by (simp add: word_less_nat_alt)
    have ij: "unat i \<le> unat j" using j(1) by (simp add: word_le_nat_alt)
    have 1: "block_at a t = Some bs" using t src ne by (simp add: block_at_set_block)
    have 2: "block_at d t = Some (map (?f j) [0..<length bd])"
      using t block_at_live [OF dst] by (simp add: block_at_set_block)
    have "move_elem (ArrayPtr (Ptr d 0)) (ix j) (ArrayPtr (Ptr a 0)) j t =
        Inr (set_block d ((map (?f j) [0..<length bd])[unat (ix j) := bs ! unat j]) t)"
      by (rule move_elem_block [OF 1 _ 2]) (use jn ns nd ix [OF j] in simp_all)
    moreover have "(map (?f j) [0..<length bd])[unat (ix j) := bs ! unat j] = map (?f (j + 1)) [0..<length bd]"
      using jn nd ij by (auto simp: ix [OF j] map_upt_update uj intro!: map_upt_cong)
    ultimately show "\<exists>t'. move_elem (ArrayPtr (Ptr d 0)) (ix j) (ArrayPtr (Ptr a 0)) j t = Inr t' \<and> ?I (j + 1) t'"
      using t by simp
  qed
  then show ?thesis by auto
qed

lemma shift_left_loop:
  assumes blk: "block_at a h = Some b" and le: "i \<le> n" and n: "unat n < length b"
  shows "for_up i n (\<lambda>j. move_elem (ArrayPtr (Ptr a 0)) j (ArrayPtr (Ptr a 0)) (j + 1)) h =
         Inr (set_block a (map (\<lambda>k. if unat i \<le> k \<and> k < unat n then b ! (k + 1) else b ! k)
                  [0..<length b]) h)"
proof -
  let ?f = "\<lambda>j k. if unat i \<le> k \<and> k < unat j then b ! (k + 1) else b ! k"
  let ?I = "\<lambda>j t. t = set_block a (map (?f j) [0..<length b]) h"
  let ?body = "\<lambda>j. move_elem (ArrayPtr (Ptr a 0)) j (ArrayPtr (Ptr a 0)) (j + 1)"
  have "\<exists>s'. for_up i n ?body h = Inr s' \<and> ?I n s'"
  proof (rule for_up_rule [where I = ?I, OF _ le])
    have "map (?f i) [0..<length b] = b"
      by (rule nth_equalityI) auto
    then show "?I i h" using blk by (simp add: set_block_same)
  next
    fix j t assume j: "i \<le> j" "j < n" and t: "?I j t"
    have uj: "unat (j + 1) = Suc (unat j)" using j(2) by (rule word_less_Suc)
    have jn: "unat j < unat n" using j(2) by (simp add: word_less_nat_alt)
    have ij: "unat i \<le> unat j" using j(1) by (simp add: word_le_nat_alt)
    have 2: "block_at a t = Some (map (?f j) [0..<length b])"
      using t block_at_live [OF blk] by (simp add: block_at_set_block)
    have "?body j t =
        Inr (set_block a ((map (?f j) [0..<length b])[unat j := map (?f j) [0..<length b] ! unat (j + 1)]) t)"
      by (rule move_elem_block [OF 2 _ 2]) (use jn n uj in simp_all)
    moreover have "(map (?f j) [0..<length b])[unat j := map (?f j) [0..<length b] ! unat (j + 1)]
        = map (?f (j + 1)) [0..<length b]"
      using jn n ij by (auto simp: map_upt_update uj intro!: map_upt_cong)
    ultimately show "\<exists>t'. ?body j t = Inr t' \<and> ?I (j + 1) t'"
      using t by simp
  qed
  then show ?thesis by auto
qed

lemma shift_right_loop:
  assumes blk: "block_at a h = Some b" and le: "n \<le> i" and n: "unat i < length b"
  shows "for_down i n (\<lambda>j. move_elem (ArrayPtr (Ptr a 0)) j (ArrayPtr (Ptr a 0)) (j - 1)) h =
         Inr (set_block a (map (\<lambda>k. if unat n < k \<and> k \<le> unat i then b ! (k - 1) else b ! k)
                  [0..<length b]) h)"
proof -
  let ?f = "\<lambda>j k. if unat j < k \<and> k \<le> unat i then b ! (k - 1) else b ! k"
  let ?I = "\<lambda>j t. t = set_block a (map (?f j) [0..<length b]) h"
  let ?body = "\<lambda>j. move_elem (ArrayPtr (Ptr a 0)) j (ArrayPtr (Ptr a 0)) (j - 1)"
  have "\<exists>s'. for_down i n ?body h = Inr s' \<and> ?I n s'"
  proof (rule for_down_rule [where I = ?I, OF _ le])
    have "map (?f i) [0..<length b] = b"
      by (rule nth_equalityI) auto
    then show "?I i h" using blk by (simp add: set_block_same)
  next
    fix j t assume j: "n < j" "j \<le> i" and t: "?I j t"
    have uj: "unat (j - 1) = unat j - 1" "0 < unat j" using j(1) by (simp_all add: word_gr_pred)
    have ji: "unat j \<le> unat i" using j(2) by (simp add: word_le_nat_alt)
    have 2: "block_at a t = Some (map (?f j) [0..<length b])"
      using t block_at_live [OF blk] by (simp add: block_at_set_block)
    have "?body j t =
        Inr (set_block a ((map (?f j) [0..<length b])[unat j := map (?f j) [0..<length b] ! unat (j - 1)]) t)"
      by (rule move_elem_block [OF 2 _ 2]) (use ji n uj in simp_all)
    moreover have "(map (?f j) [0..<length b])[unat j := map (?f j) [0..<length b] ! unat (j - 1)]
        = map (?f (j - 1)) [0..<length b]"
      using ji n uj by (auto simp: map_upt_update intro!: map_upt_cong)
    ultimately show "\<exists>t'. ?body j t = Inr t' \<and> ?I (j - 1) t'"
      using t by simp
  qed
  then show ?thesis by auto
qed

lemma fill_loop:
  assumes blk: "block_at a h = Some b" and le: "i \<le> n" and n: "unat n \<le> length b"
  shows "for_up i n (\<lambda>j. put (ArrayPtr (Ptr a 0)) j x) h =
         Inr (set_block a (map (\<lambda>k. if unat i \<le> k \<and> k < unat n then x else b ! k)
                  [0..<length b]) h)"
proof -
  let ?f = "\<lambda>j k. if unat i \<le> k \<and> k < unat j then x else b ! k"
  let ?I = "\<lambda>j t. t = set_block a (map (?f j) [0..<length b]) h"
  let ?body = "\<lambda>j. put (ArrayPtr (Ptr a 0)) j x"
  have "\<exists>s'. for_up i n ?body h = Inr s' \<and> ?I n s'"
  proof (rule for_up_rule [where I = ?I, OF _ le])
    have "map (?f i) [0..<length b] = b"
      by (rule nth_equalityI) auto
    then show "?I i h" using blk by (simp add: set_block_same)
  next
    fix j t assume j: "i \<le> j" "j < n" and t: "?I j t"
    have uj: "unat (j + 1) = Suc (unat j)" using j(2) by (rule word_less_Suc)
    have jn: "unat j < unat n" using j(2) by (simp add: word_less_nat_alt)
    have ij: "unat i \<le> unat j" using j(1) by (simp add: word_le_nat_alt)
    have 2: "block_at a t = Some (map (?f j) [0..<length b])"
      using t block_at_live [OF blk] by (simp add: block_at_set_block)
    have "?body j t = Inr (set_block a ((map (?f j) [0..<length b])[unat j := x]) t)"
      by (rule put_block [OF 2]) (use jn n in simp_all)
    moreover have "(map (?f j) [0..<length b])[unat j := x] = map (?f (j + 1)) [0..<length b]"
      using jn n ij by (auto simp: map_upt_update uj intro!: map_upt_cong)
    ultimately show "\<exists>t'. ?body j t = Inr t' \<and> ?I (j + 1) t'"
      using t by simp
  qed
  then show ?thesis by auto
qed

lemma init_loop_block:
  "block_at a h = Some b \<Longrightarrow> unat i + length xs \<le> length b \<Longrightarrow> length b < 2 ^ 64 \<Longrightarrow>
   init_loop xs i (ArrayPtr (Ptr a 0)) h =
     Inr (set_block a (map (\<lambda>k. if unat i \<le> k \<and> k < unat i + length xs then xs ! (k - unat i) else b ! k)
            [0..<length b]) h)"
proof (induction xs arbitrary: i h b)
  case Nil
  have "map (\<lambda>k. if unat i \<le> k \<and> k < unat i + length ([]::'a list) then [] ! (k - unat i) else b ! k)
      [0..<length b] = b"
    by (rule nth_equalityI) auto
  with Nil show ?case by (simp add: set_block_same)
next
  case (Cons x xs)
  have ui: "unat (i + 1) = Suc (unat i)"
    using Cons.prems(2,3) by (simp add: unat_word_ariths(1) unat_1)
  let ?b1 = "b[unat i := x]"
  let ?h1 = "set_block a ?b1 h"
  have p: "put (ArrayPtr (Ptr a 0)) i x h = Inr ?h1"
    by (rule put_block [OF Cons.prems(1)]) (use Cons.prems(2) in simp)
  have b1: "block_at a ?h1 = Some ?b1"
    using block_at_live [OF Cons.prems(1)] by (simp add: block_at_set_block)
  have ih: "init_loop xs (i + 1) (ArrayPtr (Ptr a 0)) ?h1 =
     Inr (set_block a (map (\<lambda>k. if unat (i + 1) \<le> k \<and> k < unat (i + 1) + length xs then xs ! (k - unat (i + 1)) else ?b1 ! k)
            [0..<length ?b1]) ?h1)"
    by (rule Cons.IH [OF b1]) (use Cons.prems(2,3) ui in simp_all)
  have eq: "map (\<lambda>k. if unat (i + 1) \<le> k \<and> k < unat (i + 1) + length xs then xs ! (k - unat (i + 1)) else ?b1 ! k)
            [0..<length ?b1] =
      map (\<lambda>k. if unat i \<le> k \<and> k < unat i + length (x # xs) then (x # xs) ! (k - unat i) else b ! k)
            [0..<length b]"
    using Cons.prems(2) by (auto simp: ui nth_list_update nth_Cons' Suc_diff_le intro!: map_upt_cong)
  show ?case
    by (simp only: init_loop.simps p and_then_Inr ih eq set_block_twice)
qed

lemma new_array_ok:
  "can_alloc n h \<Longrightarrow> new_array n h = Inr (Ptr (length (blocks h)) 0, allocated n h)"
  by (simp add: new_array_def can_alloc_def allocated_def)

lemma new_array_fails: "\<not> can_alloc n h \<Longrightarrow> new_array n h = Inl (bad_alloc, h)"
  by (auto simp: new_array_def can_alloc_def)

lemma ArrayPtr_sized_ok:
  "can_alloc n h \<Longrightarrow> n \<noteq> 0 \<Longrightarrow>
   ArrayPtr_sized n h = Inr (ArrayPtr (Ptr (length (blocks h)) 0), allocated n h)"
  by (simp add: ArrayPtr_sized_def new_array_ok)

lemma ArrayPtr_sized_fails:
  "\<not> can_alloc n h \<Longrightarrow> n \<noteq> 0 \<Longrightarrow> ArrayPtr_sized n h = Inl (bad_alloc, h)"
  by (simp add: ArrayPtr_sized_def new_array_fails)

lemma block_at_allocated:
  "block_at a (allocated n h) =
     (if a = length (blocks h) then Some (map (fresh h) [0..<unat n]) else block_at a h)"
  by (auto simp: block_at_def allocated_def nth_append)

lemma allocated_fields [simp]:
  "length (blocks (allocated n h)) = Suc (length (blocks h))"
  "avail (allocated n h) = avail h - unat n"
  "fresh (allocated n h) = fresh h"
  by (simp_all add: allocated_def)

lemma block_at_released:
  "block_at a' (released (Ptr a k) h) = (if a' = a then None else block_at a' h)"
  by (auto simp: block_at_def released_def nth_list_update)

lemma released_fields [simp]:
  "length (blocks (released p h)) = length (blocks h)"
  "fresh (released p h) = fresh h"
  "released nullptr h = h"
  by (simp_all add: released_def split: pointer.splits)

lemma delete_array_ok:
  "p = nullptr \<or> (\<exists>a b. p = Ptr a 0 \<and> block_at a h = Some b) \<Longrightarrow>
   delete_array p h = Inr (released p h)"
  by (auto simp: delete_array_def released_def)

lemma ArrayPtr_swap2_eq [simp]: "ArrayPtr_swap2 a b = (b, a)"
  by (simp add: ArrayPtr_swap2_def ArrayPtr_swap_def std_swap_def)

lemma in_this_Inr [simp]: "in_this s (Inr x) = Inr x"
  by (simp add: in_this_def)

lemma in_this_Inl [simp]: "in_this s (Inl (e, h)) = Inl (e, s, h)"
  by (simp add: in_this_def)

lemma valid_cases:
  assumes "valid v h"
  obtains (null) "items_m v = ArrayPtr nullptr" "capacity_m v = 0" "size_m v = 0" "buffer v h = []"
  | (block) a where "items_m v = ArrayPtr (Ptr a 0)" "block_at a h = Some (buffer v h)"
      "length (buffer v h) = unat (capacity_m v)" "unat (capacity_m v) \<le> max_array"
      "size_m v \<le> capacity_m v"
proof (cases "items_m v")
  case (ArrayPtr p)
  show ?thesis
  proof (cases p)
    case nullptr
    with ArrayPtr assms show ?thesis
      by (intro null) (auto simp: valid_def buffer_def)
  next
    case (Ptr a k)
    with ArrayPtr assms show ?thesis
      by (intro block [of a]) (auto simp: valid_def buffer_def split: option.splits)
  qed
qed

lemma valid_size: "valid v h \<Longrightarrow> unat (size_m v) \<le> unat (capacity_m v)"
  by (simp add: valid_def word_le_nat_alt)

lemma elements_buffer: "valid v h \<Longrightarrow> elements v h = take (unat (size_m v)) (buffer v h)"
  by (erule valid_cases) (simp_all add: elements_def)

lemma destroy_grown:
  "valid v h \<Longrightarrow>
   ArrayPtr_destroy (items_m v) (set_block (length (blocks h)) nb (allocated n h)) =
     Inr (grown v n nb h)"
  unfolding ArrayPtr_destroy_def grown_def
  by (erule valid_cases)
    (auto simp: delete_array_ok block_at_set_block block_at_allocated dest: block_at_live)

text \<open>Moving the first \<open>m\<close> elements into a fresh block.\<close>

lemma relocate_fresh:
  assumes v: "valid v h" and m: "m \<le> size_m v" and n: "unat (size_m v) \<le> unat n"
  shows "for_up 0 m (\<lambda>i. move_elem (ArrayPtr (Ptr (length (blocks h)) 0)) i (items_m v) i)
           (allocated n h) =
         Inr (set_block (length (blocks h))
               (map (\<lambda>k. if k < unat m then buffer v h ! k else fresh h k) [0..<unat n])
               (allocated n h))"
  using v
proof (cases rule: valid_cases)
  case null
  with m have "m = 0" by simp
  moreover have "block_at (length (blocks h)) (allocated n h) = Some (map (fresh h) [0..<unat n])"
    by (simp add: block_at_allocated)
  ultimately show ?thesis
    by (simp add: for_up_done set_block_same)
next
  case (block a)
  let ?d = "length (blocks h)"
  have a: "a < ?d" using block(2) by (rule block_at_live)
  have 1: "block_at a (allocated n h) = Some (buffer v h)"
    using a block(2) by (simp add: block_at_allocated)
  have 2: "block_at ?d (allocated n h) = Some (map (fresh h) [0..<unat n])"
    by (simp add: block_at_allocated)
  have um: "unat m \<le> unat (size_m v)" using m by (simp add: word_le_nat_alt)
  have l: "for_up 0 m (\<lambda>j. move_elem (ArrayPtr (Ptr ?d 0)) j (ArrayPtr (Ptr a 0)) j) (allocated n h) =
      Inr (set_block ?d (map (\<lambda>k. if unat (0::size_t) + 0 \<le> k \<and> k < unat m + 0
              then buffer v h ! (k - 0) else map (fresh h) [0..<unat n] ! k)
              [0..<length (map (fresh h) [0..<unat n])]) (allocated n h))"
    by (rule relocate_loop [OF 1 2]) (use a um n block(3) valid_size [OF v] in simp_all)
  have eq: "map (\<lambda>k. if unat (0::size_t) + 0 \<le> k \<and> k < unat m + 0
              then buffer v h ! (k - 0) else map (fresh h) [0..<unat n] ! k)
              [0..<length (map (fresh h) [0..<unat n])] =
     map (\<lambda>k. if k < unat m then buffer v h ! k else fresh h k) [0..<unat n]"
    by (auto intro!: map_upt_cong)
  show ?thesis by (simp only: block(1) l eq)
qed

lemma Reserve_grows:
  assumes v: "valid v h" and n: "capacity_m v < n" and al: "can_alloc n h"
  shows "Reserve n v h =
     Inr (v\<lparr>items_m := ArrayPtr (Ptr (length (blocks h)) 0), capacity_m := n\<rparr>,
          grown v n
            (map (\<lambda>k. if k < unat (size_m v) then buffer v h ! k else fresh h k) [0..<unat n]) h)"
proof -
  let ?d = "length (blocks h)"
  let ?nb = "map (\<lambda>k. if k < unat (size_m v) then buffer v h ! k else fresh h k) [0..<unat n]"
  have n0: "n \<noteq> 0" using n by auto
  have sz: "unat (size_m v) \<le> unat n"
    using valid_size [OF v] n by (simp add: word_less_nat_alt)
  show ?thesis
    using n by (simp add: Reserve_def ArrayPtr_sized_ok [OF al n0]
        relocate_fresh [OF v order_refl sz] destroy_grown [OF v])
qed

section \<open>Vectors and their blocks\<close>

lemma block_at_grown:
  assumes "valid v h"
  shows "block_at a (grown v n nb h) =
     (if a = length (blocks h) then Some nb
      else if raw_ptr_m (items_m v) = Ptr a 0 then None else block_at a h)"
  using assms
proof (cases rule: valid_cases)
  case null
  then show ?thesis
    by (simp add: grown_def block_at_set_block block_at_allocated)
next
  case (block a0)
  from block(2) have "a0 < length (blocks h)" by (rule block_at_live)
  with block(1) show ?thesis
    by (auto simp: grown_def block_at_released block_at_set_block block_at_allocated)
qed

lemma grown_fields [simp]:
  "length (blocks (grown v n nb h)) = Suc (length (blocks h))"
  "fresh (grown v n nb h) = fresh h"
  by (simp_all add: grown_def)

lemma avail_grown:
  assumes "valid v h"
  shows "avail (grown v n nb h) = avail h - unat n + unat (capacity_m v)"
  using assms
proof (cases rule: valid_cases)
  case null
  then show ?thesis by (simp add: grown_def)
next
  case (block a0)
  from block(2) have "a0 < length (blocks h)" by (rule block_at_live)
  with block show ?thesis
    by (simp add: grown_def released_def block_at_set_block block_at_allocated)
qed

lemma set_block_grown:
  assumes "valid v h"
  shows "set_block (length (blocks h)) b' (grown v n nb h) = grown v n b' h"
  using assms
proof (cases rule: valid_cases)
  case null
  then show ?thesis by (simp add: grown_def)
next
  case (block a0)
  from block(2) have a0: "a0 < length (blocks h)" by (rule block_at_live)
  have sw: "set_block (length (blocks h)) b' (released (Ptr a0 0) H) =
      released (Ptr a0 0) (set_block (length (blocks h)) b' H)" for H :: "'a heap"
    using a0 by (simp add: set_block_def released_def block_at_def list_update_swap nth_list_update)
  show ?thesis
    using block(1) by (simp add: grown_def sw)
qed

lemma valid_grown:
  assumes "valid v h" and "items_m v' = ArrayPtr (Ptr (length (blocks h)) 0)"
    and "size_m v' \<le> capacity_m v'" and "length nb = unat (capacity_m v')"
    and "unat (capacity_m v') \<le> max_array"
  shows "valid v' (grown v n nb h)"
  using assms by (simp add: valid_def [of v'] block_at_grown)

lemma buffer_grown:
  "valid v h \<Longrightarrow> items_m v' = ArrayPtr (Ptr (length (blocks h)) 0) \<Longrightarrow>
   buffer v' (grown v n nb h) = nb"
  by (simp add: buffer_def block_at_grown)

lemma elements_grown:
  "valid v h \<Longrightarrow> items_m v' = ArrayPtr (Ptr (length (blocks h)) 0) \<Longrightarrow>
   elements v' (grown v n nb h) = take (unat (size_m v')) nb"
  by (simp add: elements_def block_at_grown)

lemma valid_set_block:
  assumes "valid v h" and "items_m v = ArrayPtr (Ptr a 0)" and "items_m v' = items_m v"
    and "capacity_m v' = capacity_m v" and "size_m v' \<le> capacity_m v'"
    and "length b' = unat (capacity_m v)"
  shows "valid v' (set_block a b' h)"
  using assms
  by (auto simp: valid_def block_at_set_block split: option.splits dest: block_at_live)

lemma buffer_set_block:
  "valid v h \<Longrightarrow> items_m v = ArrayPtr (Ptr a 0) \<Longrightarrow> items_m v' = items_m v \<Longrightarrow>
   buffer v' (set_block a b' h) = b'"
  by (auto simp: buffer_def valid_def block_at_set_block split: option.splits dest: block_at_live)

lemma elements_set_block:
  "valid v h \<Longrightarrow> items_m v = ArrayPtr (Ptr a 0) \<Longrightarrow> items_m v' = items_m v \<Longrightarrow>
   elements v' (set_block a b' h) = take (unat (size_m v')) b'"
  by (auto simp: elements_def valid_def block_at_set_block split: option.splits dest: block_at_live)

text \<open>The doubled capacity does not wrap around.\<close>

lemma new_capacity:
  assumes "valid v h"
  shows "unat (if capacity_m v = 0 then 1 else capacity_m v * 2) =
           (if capacity_m v = 0 then 1 else 2 * unat (capacity_m v))"
    and "(if capacity_m v = 0 then 1 else capacity_m v * 2) \<noteq> 0"
    and "capacity_m v < (if capacity_m v = 0 then 1 else capacity_m v * 2)"
proof -
  have c: "unat (capacity_m v) \<le> max_array"
    using assms by (cases rule: valid_cases) simp_all
  then have "unat (capacity_m v) * 2 < 2 ^ 64"
    by (simp add: max_array_def)
  then have m: "unat (capacity_m v * 2) = 2 * unat (capacity_m v)"
    by (simp add: unat_word_ariths)
  show "unat (if capacity_m v = 0 then 1 else capacity_m v * 2) =
           (if capacity_m v = 0 then 1 else 2 * unat (capacity_m v))"
    using m by simp
  have nz: "capacity_m v \<noteq> 0 \<Longrightarrow> 0 < unat (capacity_m v)"
    by (simp add: unat_gt_0)
  show "(if capacity_m v = 0 then 1 else capacity_m v * 2) \<noteq> 0"
    using m nz by (auto simp: unat_eq_0 [symmetric] simp del: unat_eq_0)
  show "capacity_m v < (if capacity_m v = 0 then 1 else capacity_m v * 2)"
    using m nz by (auto simp: word_less_nat_alt)
qed

lemma ArrayPtr_index_block:
  "block_at a h = Some b \<Longrightarrow> unat i < length b \<Longrightarrow>
   ArrayPtr_index (ArrayPtr (Ptr a 0)) i h = Inr (Ptr a (unat i))"
  by (simp add: ArrayPtr_index_def subscript_def)

lemma deref_block:
  "block_at a h = Some b \<Longrightarrow> k < length b \<Longrightarrow> deref (Ptr a k) h = Inr (b ! k)"
  by (simp add: deref_def)

lemma EmplaceBack_room:
  assumes v: "valid v h" and lt: "size_m v < capacity_m v"
  obtains a where "items_m v = ArrayPtr (Ptr a 0)"
    "EmplaceBack (Local x) v h =
       Inr (Ptr a (unat (size_m v)), v\<lparr>size_m := size_m v + 1\<rparr>,
            set_block a ((buffer v h)[unat (size_m v) := x]) h)"
  using v
proof (cases rule: valid_cases)
  case null
  with lt show ?thesis by simp
next
  case (block a)
  have s: "unat (size_m v) < length (buffer v h)"
    using lt block(3) by (simp add: word_less_nat_alt)
  have "block_at a (set_block a ((buffer v h)[unat (size_m v) := x]) h) =
      Some ((buffer v h)[unat (size_m v) := x])"
    using block_at_live [OF block(2)] by (simp add: block_at_set_block)
  then have "ArrayPtr_index (ArrayPtr (Ptr a 0)) (size_m v)
      (set_block a ((buffer v h)[unat (size_m v) := x]) h) = Inr (Ptr a (unat (size_m v)))"
    by (rule ArrayPtr_index_block) (use s in simp)
  then have "EmplaceBack (Local x) v h =
       Inr (Ptr a (unat (size_m v)), v\<lparr>size_m := size_m v + 1\<rparr>,
            set_block a ((buffer v h)[unat (size_m v) := x]) h)"
    using lt block(1) by (simp add: EmplaceBack_def put_block [OF block(2) s] not_le [symmetric])
  with block(1) show ?thesis by (rule that)
qed

lemma EmplaceBack_full:
  assumes v: "valid v h" and full: "size_m v = capacity_m v"
    and al: "can_alloc (if capacity_m v = 0 then 1 else capacity_m v * 2) h"
  shows "EmplaceBack (Local x) v h =
     Inr (Ptr (length (blocks h)) (unat (size_m v)),
          v\<lparr>items_m := ArrayPtr (Ptr (length (blocks h)) 0),
            capacity_m := (if capacity_m v = 0 then 1 else capacity_m v * 2),
            size_m := size_m v + 1\<rparr>,
          grown v (if capacity_m v = 0 then 1 else capacity_m v * 2)
            ((map (\<lambda>k. if k < unat (size_m v) then buffer v h ! k else fresh h k)
               [0..<unat (if capacity_m v = 0 then 1 else capacity_m v * 2)])
             [unat (size_m v) := x]) h)"
proof -
  define nc where "nc = (if capacity_m v = 0 then 1 else capacity_m v * 2)"
  define nb where "nb = map (\<lambda>k. if k < unat (size_m v) then buffer v h ! k else fresh h k) [0..<unat nc]"
  let ?d = "length (blocks h)"
  note nc = new_capacity [OF v, folded nc_def]
  have ge: "capacity_m v \<le> size_m v" using full by simp
  have sz: "unat (size_m v) < unat nc"
    using nc(3) full by (simp add: word_less_nat_alt)
  then have sz': "unat (size_m v) \<le> unat nc" by simp
  have g: "block_at ?d (grown v nc nb h) = Some nb"
    using v by (simp add: block_at_grown)
  have lnb: "unat (size_m v) < length nb" using sz by (simp add: nb_def)
  have p: "put (ArrayPtr (Ptr ?d 0)) (size_m v) x (grown v nc nb h) =
      Inr (grown v nc (nb[unat (size_m v) := x]) h)"
    by (simp add: put_block [OF g lnb] set_block_grown [OF v])
  have g2: "block_at ?d (grown v nc (nb[unat (size_m v) := x]) h) = Some (nb[unat (size_m v) := x])"
    using v by (simp add: block_at_grown)
  have ix: "ArrayPtr_index (ArrayPtr (Ptr ?d 0)) (size_m v) (grown v nc (nb[unat (size_m v) := x]) h)
      = Inr (Ptr ?d (unat (size_m v)))"
    by (rule ArrayPtr_index_block [OF g2]) (use lnb in simp)
  have "EmplaceBack (Local x) v h =
     Inr (Ptr ?d (unat (size_m v)),
          v\<lparr>items_m := ArrayPtr (Ptr ?d 0), capacity_m := nc, size_m := size_m v + 1\<rparr>,
          grown v nc (nb[unat (size_m v) := x]) h)"
    unfolding EmplaceBack_def nc_def [symmetric] Let_def
    using ge al
    by (simp add: nc_def [symmetric] ArrayPtr_sized_ok [OF _ nc(2)]
        relocate_fresh [OF v order_refl sz', folded nb_def] destroy_grown [OF v] p ix)
  then show ?thesis by (simp add: nc_def nb_def)
qed

lemma EmplaceBack_fails:
  assumes v: "valid v h" and full: "size_m v = capacity_m v"
    and al: "\<not> can_alloc (if capacity_m v = 0 then 1 else capacity_m v * 2) h"
  shows "EmplaceBack x v h = Inl (bad_alloc, v, h)"
  using full al new_capacity(2) [OF v]
  by (simp add: EmplaceBack_def ArrayPtr_sized_fails Let_def)

lemma frame_refl: "items_m v' = items_m v \<Longrightarrow> frame v h v' h"
  by (simp add: frame_def)

lemma frame_set_block:
  "items_m v = ArrayPtr (Ptr a 0) \<Longrightarrow> items_m v' = items_m v \<Longrightarrow> frame v h v' (set_block a b h)"
  by (simp add: frame_def block_at_set_block)

lemma frame_grown:
  "valid v h \<Longrightarrow> items_m v' = ArrayPtr (Ptr (length (blocks h)) 0) \<Longrightarrow>
   frame v h v' (grown v n nb h)"
  by (cases "items_m v") (auto simp: frame_def block_at_grown)

lemma take_map_upt:
  "n \<le> m \<Longrightarrow> n \<le> length b \<Longrightarrow>
   take n (map (\<lambda>k. if k < n then b ! k else g k) [0..<m]) = take n b"
  by (rule nth_equalityI) auto

lemma take_Suc_update: "n < length b \<Longrightarrow> take (Suc n) (b[n := x]) = take n b @ [x]"
  by (simp add: take_Suc_conv_app_nth)

lemma valid_block:
  assumes "valid v h" and "items_m v = ArrayPtr (Ptr a 0)"
  shows "block_at a h = Some (buffer v h)" and "length (buffer v h) = unat (capacity_m v)"
    and "a < length (blocks h)"
  using assms by (auto elim!: valid_cases dest: block_at_live)

lemma EmplaceBack_Inr:
  assumes v: "valid v h" and r: "EmplaceBack (Local x) v h = Inr (r, v', h')"
  shows "valid v' h'" and "elements v' h' = elements v h @ [x]"
    and "unat (size_m v') = Suc (unat (size_m v))"
    and "capacity_m v' = (if size_m v < capacity_m v then capacity_m v
                          else if capacity_m v = 0 then 1 else capacity_m v * 2)"
    and "frame v h v' h'" and "deref r h' = Inr x"
    and "size_m v < capacity_m v \<or> can_alloc (if capacity_m v = 0 then 1 else capacity_m v * 2) h"
proof -
  let ?nc = "if capacity_m v = 0 then 1 else capacity_m v * 2"
  have "valid v' h' \<and> elements v' h' = elements v h @ [x] \<and>
    unat (size_m v') = Suc (unat (size_m v)) \<and>
    capacity_m v' = (if size_m v < capacity_m v then capacity_m v else ?nc) \<and>
    frame v h v' h' \<and> deref r h' = Inr x \<and> (size_m v < capacity_m v \<or> can_alloc ?nc h)"
  proof (cases "size_m v < capacity_m v")
    case True
    from v True obtain a where a: "items_m v = ArrayPtr (Ptr a 0)"
      and e: "EmplaceBack (Local x) v h =
       Inr (Ptr a (unat (size_m v)), v\<lparr>size_m := size_m v + 1\<rparr>,
            set_block a ((buffer v h)[unat (size_m v) := x]) h)"
      by (rule EmplaceBack_room)
    from e r have eq: "r = Ptr a (unat (size_m v))" "v' = v\<lparr>size_m := size_m v + 1\<rparr>"
      "h' = set_block a ((buffer v h)[unat (size_m v) := x]) h" by simp_all
    have u: "unat (size_m v + 1) = Suc (unat (size_m v))" using True by (rule word_less_Suc)
    have le: "size_m v + 1 \<le> capacity_m v" using True by (rule word_less_inc_le)
    have len: "length (buffer v h) = unat (capacity_m v)"
      using v a by (cases rule: valid_cases) simp_all
    have s: "unat (size_m v) < length (buffer v h)"
      using True len by (simp add: word_less_nat_alt)
    have 1: "valid v' h'"
      unfolding eq by (rule valid_set_block [OF v a]) (use le len in simp_all)
    have 2: "elements v' h' = elements v h @ [x]"
      unfolding eq using s
      by (simp add: elements_set_block [OF v a] elements_buffer [OF v] u take_Suc_update)
    have "block_at a h' = Some ((buffer v h)[unat (size_m v) := x])"
      unfolding eq using valid_block(3) [OF v a] by (simp add: block_at_set_block)
    from deref_block [OF this, of "unat (size_m v)"] s
    have 3: "deref r h' = Inr x"
      unfolding eq by simp
    show ?thesis
      using 1 2 3 True u by (simp add: eq frame_set_block [OF a])
  next
    case False
    then have full: "size_m v = capacity_m v"
      using v by (simp add: valid_def)
    have al: "can_alloc ?nc h"
    proof (rule ccontr)
      assume "\<not> can_alloc ?nc h"
      from EmplaceBack_fails [OF v full this] r show False by simp
    qed
    let ?d = "length (blocks h)"
    let ?nb = "map (\<lambda>k. if k < unat (size_m v) then buffer v h ! k else fresh h k) [0..<unat ?nc]"
    from EmplaceBack_full [OF v full al, of x] r
    have eq: "r = Ptr ?d (unat (size_m v))"
      "v' = v\<lparr>items_m := ArrayPtr (Ptr ?d 0), capacity_m := ?nc, size_m := size_m v + 1\<rparr>"
      "h' = grown v ?nc (?nb[unat (size_m v) := x]) h" by simp_all
    note nc = new_capacity [OF v]
    have lt: "size_m v < ?nc" using nc(3) full by simp
    have u: "unat (size_m v + 1) = Suc (unat (size_m v))" using lt by (rule word_less_Suc)
    have le: "size_m v + 1 \<le> ?nc" using lt by (rule word_less_inc_le)
    have s: "unat (size_m v) < unat ?nc" using lt by (simp add: word_less_nat_alt)
    have len: "unat (size_m v) \<le> length (buffer v h)"
      using v full by (cases rule: valid_cases) simp_all
    have al': "unat ?nc \<le> max_array" using al by (simp add: can_alloc_def)
    have 1: "valid v' h'"
      unfolding eq by (rule valid_grown [OF v]) (use le al' in simp_all)
    have "take (Suc (unat (size_m v))) (?nb[unat (size_m v) := x]) = take (unat (size_m v)) ?nb @ [x]"
      by (rule take_Suc_update) (use s in simp)
    also have "take (unat (size_m v)) ?nb = take (unat (size_m v)) (buffer v h)"
      by (rule take_map_upt) (use s len in simp_all)
    finally have 2: "elements v' h' = elements v h @ [x]"
      unfolding eq by (simp add: elements_grown [OF v] elements_buffer [OF v] u)
    have "block_at ?d h' = Some (?nb[unat (size_m v) := x])"
      unfolding eq by (simp add: block_at_grown [OF v])
    from deref_block [OF this, of "unat (size_m v)"] s
    have 3: "deref r h' = Inr x"
      unfolding eq by simp
    show ?thesis
      using 1 2 3 False u al unfolding eq by (simp add: frame_grown [OF v])
  qed
  then show "valid v' h'" and "elements v' h' = elements v h @ [x]"
    and "unat (size_m v') = Suc (unat (size_m v))"
    and "capacity_m v' = (if size_m v < capacity_m v then capacity_m v
                          else if capacity_m v = 0 then 1 else capacity_m v * 2)"
    and "frame v h v' h'" and "deref r h' = Inr x"
    and "size_m v < capacity_m v \<or> can_alloc ?nc h"
    by simp_all
qed

lemma EmplaceBack_total:
  assumes v: "valid v h"
    and "size_m v < capacity_m v \<or> can_alloc (if capacity_m v = 0 then 1 else capacity_m v * 2) h"
  shows "\<exists>r v' h'. EmplaceBack (Local x) v h = Inr (r, v', h')"
proof (cases "size_m v < capacity_m v")
  case True
  with v obtain a where "EmplaceBack (Local x) v h =
       Inr (Ptr a (unat (size_m v)), v\<lparr>size_m := size_m v + 1\<rparr>,
            set_block a ((buffer v h)[unat (size_m v) := x]) h)"
    by (rule EmplaceBack_room)
  then show ?thesis by blast
next
  case False
  then have "size_m v = capacity_m v" using v by (simp add: valid_def)
  with assms False show ?thesis by (simp add: EmplaceBack_full)
qed

lemma PushBack_Inr:
  "PushBack x v h = Inr (v', h') \<longleftrightarrow> (\<exists>r. EmplaceBack x v h = Inr (r, v', h'))"
  by (auto simp: PushBack_def and_then_eq_Inr)

lemma EmplaceBack_avail:
  assumes v: "valid v h" and r: "EmplaceBack (Local x) v h = Inr (r, v', h')"
  shows "avail h' + unat (capacity_m v') = avail h + unat (capacity_m v)"
proof (cases "size_m v < capacity_m v")
  case True
  from v True obtain a where "EmplaceBack (Local x) v h =
       Inr (Ptr a (unat (size_m v)), v\<lparr>size_m := size_m v + 1\<rparr>,
            set_block a ((buffer v h)[unat (size_m v) := x]) h)"
    by (rule EmplaceBack_room)
  with r show ?thesis by auto
next
  case False
  then have full: "size_m v = capacity_m v" using v by (simp add: valid_def)
  from EmplaceBack_Inr(7) [OF v r] False
  have al: "can_alloc (if capacity_m v = 0 then 1 else capacity_m v * 2) h" by simp
  from EmplaceBack_full [OF v full al, of x] r al show ?thesis
    by (auto simp: avail_grown [OF v] can_alloc_def)
qed

lemma doubling_step:
  assumes v: "valid v h" and d: "doubling (unat (capacity_m v)) (unat (size_m v))"
    and r: "EmplaceBack (Local x) v h = Inr (r, v', h')"
  shows "doubling (unat (capacity_m v')) (unat (size_m v'))"
proof -
  note c = EmplaceBack_Inr(3,4) [OF v r]
  note nc = new_capacity(1) [OF v]
  show ?thesis
  proof (cases "size_m v < capacity_m v")
    case True
    then have "unat (size_m v) < unat (capacity_m v)" by (simp add: word_less_nat_alt)
    with d c True show ?thesis by (auto simp: doubling_def)
  next
    case False
    then have full: "unat (size_m v) = unat (capacity_m v)" using v by (simp add: valid_def)
    show ?thesis
    proof (cases "capacity_m v = 0")
      case True
      with c False full have "unat (capacity_m v') = 2 ^ 0" "unat (size_m v') = 1" by simp_all
      then show ?thesis unfolding doubling_def by (intro disjI2 exI [of _ 0]) simp
    next
      case nz: False
      then have "unat (capacity_m v) \<noteq> 0" by (simp add: unat_eq_0)
      with d obtain k where k: "unat (capacity_m v) = 2 ^ k" by (auto simp: doubling_def)
      from c False nz nc have "unat (capacity_m v') = 2 ^ Suc k" using k by simp
      moreover have "unat (size_m v') = Suc (2 ^ k)" using c(1) full k by simp
      ultimately show ?thesis unfolding doubling_def
        by (intro disjI2 exI [of _ "Suc k"]) simp
    qed
  qed
qed

lemma push_all_Inr:
  "valid v h \<Longrightarrow> doubling (unat (capacity_m v)) (unat (size_m v)) \<Longrightarrow>
   push_all xs v h = Inr (v', h') \<Longrightarrow>
   valid v' h' \<and> doubling (unat (capacity_m v')) (unat (size_m v')) \<and>
   elements v' h' = elements v h @ xs \<and> unat (size_m v') = unat (size_m v) + length xs"
proof (induction xs arbitrary: v h)
  case Nil
  then show ?case by simp
next
  case (Cons x xs)
  from Cons.prems(3) obtain r v1 h1 where e: "EmplaceBack (Local x) v h = Inr (r, v1, h1)"
    and p: "push_all xs v1 h1 = Inr (v', h')"
    by (auto simp: and_then_eq_Inr PushBack_Inr)
  note s = EmplaceBack_Inr [OF Cons.prems(1) e]
  from Cons.IH [OF s(1) doubling_step [OF Cons.prems(1,2) e] p] s(2,3)
  show ?case by auto
qed

lemma push_all_total:
  "valid v h \<Longrightarrow> unat (size_m v) \<le> unat (capacity_m v) \<Longrightarrow>
   3 * (unat (size_m v) + length xs) \<le> avail h + unat (capacity_m v) \<Longrightarrow>
   2 * (unat (size_m v) + length xs) \<le> max_array \<Longrightarrow>
   \<exists>v' h'. push_all xs v h = Inr (v', h')"
proof (induction xs arbitrary: v h)
  case Nil
  then show ?case by simp
next
  case (Cons x xs)
  note nc = new_capacity(1) [OF Cons.prems(1)]
  have "size_m v < capacity_m v \<or> can_alloc (if capacity_m v = 0 then 1 else capacity_m v * 2) h"
  proof (cases "size_m v < capacity_m v")
    case False
    then have "unat (size_m v) = unat (capacity_m v)"
      using Cons.prems(1) by (simp add: valid_def)
    with Cons.prems(3,4) nc show ?thesis
      by (auto simp: can_alloc_def)
  qed simp
  from EmplaceBack_total [OF Cons.prems(1) this]
  obtain r v1 h1 where e: "EmplaceBack (Local x) v h = Inr (r, v1, h1)" by blast
  note s = EmplaceBack_Inr [OF Cons.prems(1) e]
  note a = EmplaceBack_avail [OF Cons.prems(1) e]
  have "\<exists>v' h'. push_all xs v1 h1 = Inr (v', h')"
    by (rule Cons.IH [OF s(1) valid_size [OF s(1)]]) (use Cons.prems(3,4) s(3) a in simp_all)
  with e show ?case by (simp add: PushBack_def)
qed

lemma valid_default [simp]: "valid SimpleVector_default h"
  by (simp add: valid_def SimpleVector_default_def ArrayPtr_default_def)

lemma elements_default [simp]: "elements SimpleVector_default h = []"
  by (simp add: elements_def SimpleVector_default_def ArrayPtr_default_def)

lemma default_fields [simp]:
  "size_m SimpleVector_default = 0" "capacity_m SimpleVector_default = 0"
  "items_m SimpleVector_default = ArrayPtr nullptr"
  by (simp_all add: SimpleVector_default_def ArrayPtr_default_def)

lemma At_in_range:
  assumes v: "valid v h" and i: "i < size_m v"
  obtains a where "items_m v = ArrayPtr (Ptr a 0)" "At i v h = Inr (Ptr a (unat i))"
    "deref (Ptr a (unat i)) h = Inr (elements v h ! unat i)"
  using v
proof (cases rule: valid_cases)
  case null
  with i show ?thesis by simp
next
  case (block a)
  have l: "unat i < unat (size_m v)" using i by (simp add: word_less_nat_alt)
  with valid_size [OF v] block(3) have l': "unat i < length (buffer v h)" by simp
  have 1: "At i v h = Inr (Ptr a (unat i))"
    using i block(1) by (simp add: At_def ArrayPtr_index_block [OF block(2) l'] not_le [symmetric])
  have 2: "deref (Ptr a (unat i)) h = Inr (elements v h ! unat i)"
    using l by (simp add: deref_block [OF block(2) l'] elements_buffer [OF v])
  from block(1) 1 2 show ?thesis by (rule that)
qed

lemma At_not_out_of_range: "i < size_m v \<Longrightarrow> At i v h \<noteq> Inl (out_of_range, s)"
  by (auto simp: At_def ArrayPtr_index_def subscript_def in_this_def not_le [symmetric]
      split: pointer.splits option.splits)

lemma valid_resize:
  "valid v h \<Longrightarrow> n \<le> capacity_m v \<Longrightarrow> valid (v\<lparr>size_m := n\<rparr>) h"
  by (auto simp: valid_def split: pointer.splits option.splits)

lemma Resize_shrink:
  "n \<le> size_m v \<Longrightarrow> Resize T0 n v h = Inr (v\<lparr>size_m := n\<rparr>, h)"
  by (simp add: Resize_def)

lemma elements_shrink:
  assumes v: "valid v h" and n: "n \<le> size_m v"
  shows "elements (v\<lparr>size_m := n\<rparr>) h = take (unat n) (elements v h)"
proof -
  have "size_m v \<le> capacity_m v" using v by (simp add: valid_def)
  with n have "n \<le> capacity_m v" by (rule order_trans)
  from valid_resize [OF v this] n show ?thesis
    by (simp add: elements_buffer v buffer_def word_le_nat_alt min_def)
qed

lemma take_fill:
  "s \<le> n \<Longrightarrow> n \<le> length b \<Longrightarrow>
   take n (map (\<lambda>k. if s \<le> k \<and> k < n then x else b ! k) [0..<length b]) =
     take s b @ replicate (n - s) x"
  by (rule nth_equalityI) (auto simp: nth_append)

lemma take_fill_fresh:
  "s \<le> n \<Longrightarrow> s \<le> length b \<Longrightarrow>
   map (\<lambda>k. if k < s then b ! k else x) [0..<n] = take s b @ replicate (n - s) x"
  by (rule nth_equalityI) (auto simp: nth_append)

lemma Resize_in_place:
  assumes v: "valid v h" and lo: "size_m v < n" and hi: "n \<le> capacity_m v"
  obtains a where "items_m v = ArrayPtr (Ptr a 0)"
    "Resize T0 n v h =
       Inr (v\<lparr>size_m := n\<rparr>,
            set_block a (map (\<lambda>k. if unat (size_m v) \<le> k \<and> k < unat n then T0 else buffer v h ! k)
              [0..<length (buffer v h)]) h)"
  using v
proof (cases rule: valid_cases)
  case null
  with lo hi show ?thesis by simp
next
  case (block a)
  have le: "size_m v \<le> n" using lo by simp
  have n: "unat n \<le> length (buffer v h)" using hi block(3) by (simp add: word_le_nat_alt)
  have "Resize T0 n v h =
       Inr (v\<lparr>size_m := n\<rparr>,
            set_block a (map (\<lambda>k. if unat (size_m v) \<le> k \<and> k < unat n then T0 else buffer v h ! k)
              [0..<length (buffer v h)]) h)"
    using lo hi block(1)
    by (simp add: Resize_def not_le [symmetric] fill_loop [OF block(2) le n])
  with block(1) show ?thesis by (rule that)
qed

lemma Resize_grow:
  assumes v: "valid v h" and n: "capacity_m v < n" and al: "can_alloc n h"
  shows "Resize T0 n v h =
     Inr (v\<lparr>items_m := ArrayPtr (Ptr (length (blocks h)) 0), size_m := n, capacity_m := n\<rparr>,
          grown v n (map (\<lambda>k. if k < unat (size_m v) then buffer v h ! k else T0) [0..<unat n]) h)"
proof -
  let ?d = "length (blocks h)"
  let ?nb1 = "map (\<lambda>k. if k < unat (size_m v) then buffer v h ! k else fresh h k) [0..<unat n]"
  let ?nb2 = "map (\<lambda>k. if k < unat (size_m v) then buffer v h ! k else T0) [0..<unat n]"
  let ?h2 = "set_block ?d ?nb1 (allocated n h)"
  have n0: "n \<noteq> 0" using n by auto
  have sc: "size_m v \<le> capacity_m v" using v by (simp add: valid_def)
  have sn: "size_m v \<le> n" using sc n by simp
  have sz: "unat (size_m v) \<le> unat n" using sn by (simp add: word_le_nat_alt)
  have nle: "\<not> n \<le> size_m v" "\<not> n \<le> capacity_m v" using sc n by auto
  have b2: "block_at ?d ?h2 = Some ?nb1"
    by (simp add: block_at_set_block)
  have f: "for_up (size_m v) n (\<lambda>j. put (ArrayPtr (Ptr ?d 0)) j T0) ?h2 =
      Inr (set_block ?d (map (\<lambda>k. if unat (size_m v) \<le> k \<and> k < unat n then T0 else ?nb1 ! k)
                  [0..<length ?nb1]) ?h2)"
    by (rule fill_loop [OF b2 sn]) simp
  have eq: "map (\<lambda>k. if unat (size_m v) \<le> k \<and> k < unat n then T0 else ?nb1 ! k) [0..<length ?nb1] = ?nb2"
    by (auto intro!: map_upt_cong)
  have f': "for_up (size_m v) n (\<lambda>j. put (ArrayPtr (Ptr ?d 0)) j T0) ?h2 =
      Inr (set_block ?d ?nb2 (allocated n h))"
    by (simp only: f eq set_block_twice)
  show ?thesis
    using nle by (simp add: Resize_def ArrayPtr_sized_ok [OF al n0]
        relocate_fresh [OF v order_refl sz] f' destroy_grown [OF v])
qed

lemma Resize_fails:
  assumes v: "valid v h" and n: "capacity_m v < n" and al: "\<not> can_alloc n h"
  shows "Resize T0 n v h = Inl (bad_alloc, v, h)"
proof -
  have "size_m v \<le> capacity_m v" using v by (simp add: valid_def)
  with n have "\<not> n \<le> size_m v" "\<not> n \<le> capacity_m v" "n \<noteq> 0" by auto
  with al show ?thesis by (simp add: Resize_def ArrayPtr_sized_fails)
qed

lemma Resize_Inr:
  assumes v: "valid v h" and r: "Resize T0 n v h = Inr (v', h')"
  shows "valid v' h'" and "frame v h v' h'" and "size_m v' = n"
    and "elements v' h' =
       take (unat n) (elements v h) @ replicate (unat n - unat (size_m v)) T0"
    and "capacity_m v' = (if n \<le> capacity_m v then capacity_m v else n)"
    and "n \<le> capacity_m v \<or> can_alloc n h"
proof -
  have sc: "size_m v \<le> capacity_m v" using v by (simp add: valid_def)
  have "valid v' h' \<and> frame v h v' h' \<and> size_m v' = n \<and>
     elements v' h' = take (unat n) (elements v h) @ replicate (unat n - unat (size_m v)) T0 \<and>
     capacity_m v' = (if n \<le> capacity_m v then capacity_m v else n) \<and>
     (n \<le> capacity_m v \<or> can_alloc n h)"
  proof (cases "n \<le> size_m v")
    case True
    with r have eq: "v' = v\<lparr>size_m := n\<rparr>" "h' = h" by (simp_all add: Resize_shrink)
    have nc: "n \<le> capacity_m v" using True sc by simp
    have "unat n \<le> unat (size_m v)" using True by (simp add: word_le_nat_alt)
    then show ?thesis
      unfolding eq using nc
      by (simp add: valid_resize [OF v nc] elements_shrink [OF v True] frame_refl)
  next
    case False
    then have lo: "size_m v < n" by simp
    then have ul: "unat (size_m v) < unat n" by (simp add: word_less_nat_alt)
    show ?thesis
    proof (cases "n \<le> capacity_m v")
      case True
      from v lo True obtain a where a: "items_m v = ArrayPtr (Ptr a 0)"
        and e: "Resize T0 n v h =
         Inr (v\<lparr>size_m := n\<rparr>,
            set_block a (map (\<lambda>k. if unat (size_m v) \<le> k \<and> k < unat n then T0 else buffer v h ! k)
              [0..<length (buffer v h)]) h)"
        by (rule Resize_in_place)
      from e r have eq: "v' = v\<lparr>size_m := n\<rparr>"
        "h' = set_block a (map (\<lambda>k. if unat (size_m v) \<le> k \<and> k < unat n then T0 else buffer v h ! k)
              [0..<length (buffer v h)]) h" by simp_all
      note vb = valid_block [OF v a]
      have nl: "unat n \<le> length (buffer v h)" using True vb(2) by (simp add: word_le_nat_alt)
      have 1: "valid v' h'"
        unfolding eq by (rule valid_set_block [OF v a]) (use True vb in simp_all)
      have 2: "elements v' h' = take (unat n) (elements v h) @ replicate (unat n - unat (size_m v)) T0"
        unfolding eq using ul nl
        by (simp add: elements_set_block [OF v a] elements_buffer [OF v] take_fill min_def)
      show ?thesis using 1 2 True by (simp add: eq frame_set_block [OF a])
    next
      case nle: False
      then have gt: "capacity_m v < n" by simp
      have al: "can_alloc n h"
      proof (rule ccontr)
        assume "\<not> can_alloc n h"
        from Resize_fails [OF v gt this] r show False by simp
      qed
      from Resize_grow [OF v gt al, of T0] r
      have eq: "v' = v\<lparr>items_m := ArrayPtr (Ptr (length (blocks h)) 0), size_m := n, capacity_m := n\<rparr>"
        "h' = grown v n (map (\<lambda>k. if k < unat (size_m v) then buffer v h ! k else T0) [0..<unat n]) h"
        by simp_all
      have al': "unat n \<le> max_array" using al by (simp add: can_alloc_def)
      have sl: "unat (size_m v) \<le> length (buffer v h)"
        using v by (cases rule: valid_cases) (simp_all add: word_le_nat_alt)
      have 1: "valid v' h'"
        unfolding eq by (rule valid_grown [OF v]) (use al' in simp_all)
      have 2: "elements v' h' = take (unat n) (elements v h) @ replicate (unat n - unat (size_m v)) T0"
        unfolding eq using ul sl
        by (simp add: elements_grown [OF v] elements_buffer [OF v] take_fill_fresh min_def)
      show ?thesis using 1 2 nle al unfolding eq by (simp add: frame_grown [OF v])
    qed
  qed
  then show "valid v' h'" and "frame v h v' h'" and "size_m v' = n"
    and "elements v' h' =
       take (unat n) (elements v h) @ replicate (unat n - unat (size_m v)) T0"
    and "capacity_m v' = (if n \<le> capacity_m v then capacity_m v else n)"
    and "n \<le> capacity_m v \<or> can_alloc n h"
    by simp_all
qed

lemma Resize_total:
  assumes v: "valid v h" and "n \<le> capacity_m v \<or> can_alloc n h"
  shows "\<exists>v' h'. Resize T0 n v h = Inr (v', h')"
proof (cases "n \<le> size_m v")
  case True
  then show ?thesis by (simp add: Resize_shrink)
next
  case False
  then have lo: "size_m v < n" by simp
  show ?thesis
  proof (cases "n \<le> capacity_m v")
    case True
    from v lo True obtain a where "Resize T0 n v h =
         Inr (v\<lparr>size_m := n\<rparr>,
            set_block a (map (\<lambda>k. if unat (size_m v) \<le> k \<and> k < unat n then T0 else buffer v h ! k)
              [0..<length (buffer v h)]) h)"
      by (rule Resize_in_place)
    then show ?thesis by blast
  next
    case False
    with assms show ?thesis by (simp add: Resize_grow)
  qed
qed

lemma Resize_no_grow:
  assumes v: "valid v h" and n: "n \<le> capacity_m v" and r: "Resize T0 n v h = Inr (v', h')"
  shows "v' = v\<lparr>size_m := n\<rparr>"
proof (cases "n \<le> size_m v")
  case True
  with r show ?thesis by (simp add: Resize_shrink)
next
  case False
  then have "size_m v < n" by simp
  from v this n obtain a where "Resize T0 n v h =
       Inr (v\<lparr>size_m := n\<rparr>,
            set_block a (map (\<lambda>k. if unat (size_m v) \<le> k \<and> k < unat n then T0 else buffer v h ! k)
              [0..<length (buffer v h)]) h)"
    by (rule Resize_in_place)
  with r show ?thesis by simp
qed

lemma relocate_vector:
  assumes v: "valid v h" and dst: "block_at d H = Some bd"
    and src: "\<And>a. items_m v = ArrayPtr (Ptr a 0) \<Longrightarrow> block_at a H = Some (buffer v h) \<and> a \<noteq> d"
    and le: "i \<le> n" and n: "n \<le> size_m v" and nd: "unat n + s \<le> length bd"
    and ix: "\<And>j. i \<le> j \<Longrightarrow> j < n \<Longrightarrow> unat (ix j) = unat j + s"
  shows "for_up i n (\<lambda>j. move_elem (ArrayPtr (Ptr d 0)) (ix j) (items_m v) j) H =
     Inr (set_block d
       (map (\<lambda>k. if unat i + s \<le> k \<and> k < unat n + s then buffer v h ! (k - s) else bd ! k)
          [0..<length bd]) H)"
  using v
proof (cases rule: valid_cases)
  case null
  with n have "n = 0" by simp
  with le have "i = 0" by simp
  have "map (\<lambda>k. if unat i + s \<le> k \<and> k < unat n + s then buffer v h ! (k - s) else bd ! k)
          [0..<length bd] = bd"
    unfolding \<open>i = 0\<close> \<open>n = 0\<close> by (rule nth_equalityI) auto
  then show ?thesis
    using \<open>i = 0\<close> \<open>n = 0\<close> dst by (simp add: for_up_done set_block_same)
next
  case (block a)
  from src [OF block(1)] have 1: "block_at a H = Some (buffer v h)" and ne: "a \<noteq> d" by simp_all
  have "unat n \<le> unat (size_m v)" using n by (simp add: word_le_nat_alt)
  with valid_size [OF v] block(3) have ns: "unat n \<le> length (buffer v h)" by simp
  show ?thesis
    unfolding block(1) by (rule relocate_loop [OF 1 dst ne le ns nd ix])
qed

lemma position:
  assumes v: "valid v h" and k: "k \<le> capacity_m v" and p: "ptr_add (begin_it v) k h = Inr pos"
  shows "ptr_diff pos (begin_it v) H = Inr k"
  using v
proof (cases rule: valid_cases)
  case null
  with k have "k = 0" by simp
  with p null show ?thesis by (simp add: begin_it_def Get_def ptr_add_def)
next
  case (block a)
  with p have "pos = Ptr a (unat k)"
    by (auto simp: begin_it_def Get_def ptr_add_def split: if_splits)
  with block(1) show ?thesis by (simp add: begin_it_def Get_def)
qed

lemma size_le_capacity: "valid v h \<Longrightarrow> k \<le> size_m v \<Longrightarrow> k \<le> capacity_m v"
  by (auto simp: valid_def intro: order_trans)

lemma position_total:
  assumes v: "valid v h" and k: "k \<le> capacity_m v"
  shows "ptr_add (begin_it v) k h =
     Inr (case raw_ptr_m (items_m v) of nullptr \<Rightarrow> nullptr | Ptr a j \<Rightarrow> Ptr a (unat k))"
  using v
proof (cases rule: valid_cases)
  case null
  with k show ?thesis by (simp add: begin_it_def Get_def ptr_add_def)
next
  case (block a)
  with k show ?thesis
    by (simp add: begin_it_def Get_def ptr_add_def word_le_nat_alt)
qed

lemma Emplace_room:
  assumes v: "valid v h" and lt: "size_m v < capacity_m v" and k: "k \<le> size_m v"
    and p: "ptr_add (begin_it v) k h = Inr pos"
  obtains a where "items_m v = ArrayPtr (Ptr a 0)"
    "Emplace pos (Local x) v h =
       Inr (Ptr a (unat k), v\<lparr>size_m := size_m v + 1\<rparr>,
            set_block a
              (map (\<lambda>j. if j < unat k then buffer v h ! j else if j = unat k then x
                         else if j \<le> unat (size_m v) then buffer v h ! (j - 1)
                         else buffer v h ! j) [0..<length (buffer v h)]) h)"
  using v
proof (cases rule: valid_cases)
  case null
  with lt show ?thesis by simp
next
  case (block a)
  let ?b = "buffer v h"
  let ?b1 = "map (\<lambda>j. if unat k < j \<and> j \<le> unat (size_m v) then ?b ! (j - 1) else ?b ! j)
      [0..<length ?b]"
  let ?b2 = "map (\<lambda>j. if j < unat k then ?b ! j else if j = unat k then x
                         else if j \<le> unat (size_m v) then ?b ! (j - 1)
                         else ?b ! j) [0..<length ?b]"
  have s: "unat (size_m v) < length ?b" using lt block(3) by (simp add: word_less_nat_alt)
  have uk: "unat k \<le> unat (size_m v)" using k by (simp add: word_le_nat_alt)
  have l1: "for_down (size_m v) k (\<lambda>j. move_elem (ArrayPtr (Ptr a 0)) j (ArrayPtr (Ptr a 0)) (j - 1)) h
      = Inr (set_block a ?b1 h)"
    by (rule shift_right_loop [OF block(2) k s])
  have b1: "block_at a (set_block a ?b1 h) = Some ?b1"
    using block_at_live [OF block(2)] by (simp add: block_at_set_block)
  have eq: "?b1[unat k := x] = ?b2"
    using uk s by (auto simp: map_upt_update intro!: map_upt_cong)
  have l2: "put (ArrayPtr (Ptr a 0)) k x (set_block a ?b1 h) = Inr (set_block a ?b2 h)"
    using put_block [OF b1, of k x] uk s by (simp add: eq)
  have b2: "block_at a (set_block a ?b2 h) = Some ?b2"
    using block_at_live [OF block(2)] by (simp add: block_at_set_block)
  have l3: "ptr_add (Ptr a 0) k (set_block a ?b2 h) = Inr (Ptr a (unat k))"
    using uk s by (simp add: ptr_add_def b2)
  have nle: "\<not> capacity_m v \<le> size_m v" using lt by simp
  have pd: "ptr_diff pos (Ptr a 0) h = Inr k"
    using position [OF v size_le_capacity [OF v k] p, of h] block(1) by (simp add: begin_it_def Get_def)
  have "Emplace pos (Local x) v h =
       Inr (Ptr a (unat k), v\<lparr>size_m := size_m v + 1\<rparr>, set_block a ?b2 h)"
    using nle block(1)
    by (simp add: Emplace_def begin_it_def Get_def pd l1 l2 l3)
  with block(1) show ?thesis by (rule that)
qed

lemma Emplace_full:
  assumes v: "valid v h" and full: "size_m v = capacity_m v" and k: "k \<le> size_m v"
    and p: "ptr_add (begin_it v) k h = Inr pos"
    and al: "can_alloc (if capacity_m v = 0 then 1 else capacity_m v * 2) h"
  shows "Emplace pos (Local x) v h =
     Inr (Ptr (length (blocks h)) (unat k),
          v\<lparr>items_m := ArrayPtr (Ptr (length (blocks h)) 0),
            capacity_m := (if capacity_m v = 0 then 1 else capacity_m v * 2),
            size_m := size_m v + 1\<rparr>,
          grown v (if capacity_m v = 0 then 1 else capacity_m v * 2)
            (map (\<lambda>j. if j < unat k then buffer v h ! j else if j = unat k then x
                       else if j \<le> unat (size_m v) then buffer v h ! (j - 1)
                       else fresh h j)
               [0..<unat (if capacity_m v = 0 then 1 else capacity_m v * 2)]) h)"
proof -
  define nc where "nc = (if capacity_m v = 0 then 1 else capacity_m v * 2)"
  let ?b = "buffer v h"
  let ?d = "length (blocks h)"
  let ?H = "allocated nc h"
  define fb where "fb = map (fresh h) [0..<unat nc]"
  define nb1 where "nb1 = map (\<lambda>j. if unat (0::size_t) + 0 \<le> j \<and> j < unat k + 0 then ?b ! (j - 0) else fb ! j)
      [0..<length fb]"
  define nb2 where "nb2 = nb1[unat k := x]"
  define nb3 where "nb3 = map (\<lambda>j. if unat k + 1 \<le> j \<and> j < unat (size_m v) + 1 then ?b ! (j - 1) else nb2 ! j)
      [0..<length nb2]"
  define nb where "nb = map (\<lambda>j. if j < unat k then ?b ! j else if j = unat k then x
                       else if j \<le> unat (size_m v) then ?b ! (j - 1) else fresh h j) [0..<unat nc]"
  note nc = new_capacity [OF v, folded nc_def]
  have ge: "capacity_m v \<le> size_m v" using full by simp
  have sz: "unat (size_m v) < unat nc" using nc(3) full by (simp add: word_less_nat_alt)
  have uk: "unat k \<le> unat (size_m v)" using k by (simp add: word_le_nat_alt)
  have len: "length fb = unat nc" "length nb1 = unat nc" "length nb2 = unat nc"
    by (simp_all add: fb_def nb1_def nb2_def)
  have src: "block_at a ?H = Some ?b \<and> a \<noteq> ?d"
    "block_at a (set_block ?d nb2 ?H) = Some ?b \<and> a \<noteq> ?d"
    if "items_m v = ArrayPtr (Ptr a 0)" for a
    using valid_block [OF v that] by (simp_all add: block_at_allocated block_at_set_block)
  have H0: "block_at ?d ?H = Some fb" by (simp add: block_at_allocated fb_def)
  have l1: "for_up 0 k (\<lambda>j. move_elem (ArrayPtr (Ptr ?d 0)) j (items_m v) j) ?H =
      Inr (set_block ?d nb1 ?H)"
    unfolding nb1_def
    by (rule relocate_vector [OF v H0 src(1) _ k]) (use uk sz len in simp_all)
  have H1: "block_at ?d (set_block ?d nb1 ?H) = Some nb1" by (simp add: block_at_set_block)
  have l2: "put (ArrayPtr (Ptr ?d 0)) k x (set_block ?d nb1 ?H) = Inr (set_block ?d nb2 ?H)"
    using put_block [OF H1, of k x] uk sz len by (simp add: nb2_def)
  have H2: "block_at ?d (set_block ?d nb2 ?H) = Some nb2" by (simp add: block_at_set_block)
  have l3: "for_up k (size_m v) (\<lambda>j. move_elem (ArrayPtr (Ptr ?d 0)) (j + 1) (items_m v) j)
      (set_block ?d nb2 ?H) = Inr (set_block ?d nb3 (set_block ?d nb2 ?H))"
    unfolding nb3_def
    by (rule relocate_vector [OF v H2 src(2) k order_refl])
      (use sz len in \<open>simp_all add: word_less_Suc\<close>)
  have eq: "nb3 = nb"
    unfolding nb3_def nb2_def nb1_def nb_def fb_def
    using uk sz by (auto intro!: map_upt_cong simp: nth_list_update)
  have l3': "for_up k (size_m v) (\<lambda>j. move_elem (ArrayPtr (Ptr ?d 0)) (j + 1) (items_m v) j)
      (set_block ?d nb2 ?H) = Inr (set_block ?d nb ?H)"
    using l3 by (simp add: eq)
  have g: "block_at ?d (grown v nc nb h) = Some nb" by (simp add: block_at_grown [OF v])
  have lnb: "length nb = unat nc" by (simp add: nb_def)
  have l4: "ptr_add (Ptr ?d 0) k (grown v nc nb h) = Inr (Ptr ?d (unat k))"
    using uk sz lnb by (simp add: ptr_add_def g)
  have "Emplace pos (Local x) v h =
     Inr (Ptr ?d (unat k), v\<lparr>items_m := ArrayPtr (Ptr ?d 0), capacity_m := nc, size_m := size_m v + 1\<rparr>,
          grown v nc nb h)"
    unfolding Emplace_def nc_def [symmetric] Let_def
    using ge al
    by (simp add: nc_def [symmetric] position [OF v size_le_capacity [OF v k] p, unfolded begin_it_def Get_def]
        ArrayPtr_sized_ok [OF _ nc(2)] l1 l2 l3' destroy_grown [OF v] l4 begin_it_def Get_def)
  then show ?thesis by (simp add: nc_def nb_def)
qed

lemma Emplace_fails:
  assumes v: "valid v h" and full: "size_m v = capacity_m v" and k: "k \<le> size_m v"
    and p: "ptr_add (begin_it v) k h = Inr pos"
    and al: "\<not> can_alloc (if capacity_m v = 0 then 1 else capacity_m v * 2) h"
  shows "Emplace pos x v h = Inl (bad_alloc, v, h)"
  using full al new_capacity(2) [OF v]
  by (simp add: Emplace_def position [OF v size_le_capacity [OF v k] p] ArrayPtr_sized_fails Let_def)

lemma take_insert_map:
  assumes "k \<le> s" and "s < m" and "s \<le> length b"
  shows "take (Suc s) (map (\<lambda>j. if j < k then b ! j else if j = k then x
                         else if j \<le> s then b ! (j - 1) else g j) [0..<m]) =
         take k (take s b) @ x # drop k (take s b)"
proof (rule nth_equalityI)
  show "length (take (Suc s) (map (\<lambda>j. if j < k then b ! j else if j = k then x
                         else if j \<le> s then b ! (j - 1) else g j) [0..<m])) =
        length (take k (take s b) @ x # drop k (take s b))"
    using assms by simp
next
  fix i assume "i < length (take (Suc s) (map (\<lambda>j. if j < k then b ! j else if j = k then x
                         else if j \<le> s then b ! (j - 1) else g j) [0..<m]))"
  then have i: "i \<le> s" using assms by simp
  show "take (Suc s) (map (\<lambda>j. if j < k then b ! j else if j = k then x
                         else if j \<le> s then b ! (j - 1) else g j) [0..<m]) ! i =
        (take k (take s b) @ x # drop k (take s b)) ! i"
  proof (cases "i < k")
    case True
    with i assms show ?thesis by (simp add: nth_append)
  next
    case False
    show ?thesis
    proof (cases "i = k")
      case True
      with i assms show ?thesis by (simp add: nth_append)
    next
      case ne: False
      with False have gt: "k < i" by simp
      then obtain i' where i': "i = Suc (k + i')" by (metis less_iff_Suc_add)
      with i assms show ?thesis by (simp add: nth_append)
    qed
  qed
qed

lemma length_elements: "valid v h \<Longrightarrow> length (elements v h) = unat (size_m v)"
  by (erule valid_cases) (simp_all add: elements_def word_le_nat_alt)

lemma Emplace_at:
  assumes v: "valid v h" and k: "k \<le> size_m v" and p: "ptr_add (begin_it v) k h = Inr pos"
    and r: "Emplace pos (Local x) v h = Inr (it, v', h')"
  shows "valid v' h'" and "frame v h v' h'"
    and "elements v' h' = take (unat k) (elements v h) @ x # drop (unat k) (elements v h)"
    and "unat (size_m v') = Suc (unat (size_m v))"
    and "capacity_m v' = (if size_m v < capacity_m v then capacity_m v
                          else if capacity_m v = 0 then 1 else capacity_m v * 2)"
    and "ptr_add (begin_it v') k h' = Inr it" and "deref it h' = Inr x"
    and "size_m v < capacity_m v \<or> can_alloc (if capacity_m v = 0 then 1 else capacity_m v * 2) h"
proof -
  let ?nc = "if capacity_m v = 0 then 1 else capacity_m v * 2"
  let ?b = "buffer v h"
  have uk: "unat k \<le> unat (size_m v)" using k by (simp add: word_le_nat_alt)
  have "valid v' h' \<and> frame v h v' h' \<and>
    elements v' h' = take (unat k) (elements v h) @ x # drop (unat k) (elements v h) \<and>
    unat (size_m v') = Suc (unat (size_m v)) \<and>
    capacity_m v' = (if size_m v < capacity_m v then capacity_m v else ?nc) \<and>
    ptr_add (begin_it v') k h' = Inr it \<and> deref it h' = Inr x \<and>
    (size_m v < capacity_m v \<or> can_alloc ?nc h)"
  proof (cases "size_m v < capacity_m v")
    case True
    let ?b2 = "map (\<lambda>j. if j < unat k then ?b ! j else if j = unat k then x
                         else if j \<le> unat (size_m v) then ?b ! (j - 1)
                         else ?b ! j) [0..<length ?b]"
    from v True k p obtain a where a: "items_m v = ArrayPtr (Ptr a 0)"
      and e: "Emplace pos (Local x) v h =
       Inr (Ptr a (unat k), v\<lparr>size_m := size_m v + 1\<rparr>, set_block a ?b2 h)"
      by (rule Emplace_room)
    from e r have eq: "it = Ptr a (unat k)" "v' = v\<lparr>size_m := size_m v + 1\<rparr>"
      "h' = set_block a ?b2 h" by simp_all
    note vb = valid_block [OF v a]
    have u: "unat (size_m v + 1) = Suc (unat (size_m v))" using True by (rule word_less_Suc)
    have le: "size_m v + 1 \<le> capacity_m v" using True by (rule word_less_inc_le)
    have s: "unat (size_m v) < length ?b" using True vb(2) by (simp add: word_less_nat_alt)
    have blk: "block_at a h' = Some ?b2"
      unfolding eq using vb(3) by (simp add: block_at_set_block)
    have 1: "valid v' h'"
      unfolding eq by (rule valid_set_block [OF v a]) (use le vb in simp_all)
    have "take (Suc (unat (size_m v))) ?b2 =
        take (unat k) (take (unat (size_m v)) ?b) @ x # drop (unat k) (take (unat (size_m v)) ?b)"
      by (rule take_insert_map) (use uk s in simp_all)
    then have 2: "elements v' h' = take (unat k) (elements v h) @ x # drop (unat k) (elements v h)"
      unfolding eq by (simp add: elements_set_block [OF v a] elements_buffer [OF v] u)
    have 3: "ptr_add (begin_it v') k h' = Inr it"
      using uk s a blk unfolding eq(1,2) by (simp add: begin_it_def Get_def ptr_add_def)
    have 4: "deref it h' = Inr x"
      using deref_block [OF blk, of "unat k"] uk s unfolding eq(1) by simp
    show ?thesis
      using 1 2 3 4 True u by (simp add: eq(2,3) frame_set_block [OF a])
  next
    case False
    then have full: "size_m v = capacity_m v"
      using v by (simp add: valid_def)
    have al: "can_alloc ?nc h"
    proof (rule ccontr)
      assume "\<not> can_alloc ?nc h"
      from Emplace_fails [OF v full k p this] r show False by simp
    qed
    let ?d = "length (blocks h)"
    let ?nb = "map (\<lambda>j. if j < unat k then ?b ! j else if j = unat k then x
                       else if j \<le> unat (size_m v) then ?b ! (j - 1)
                       else fresh h j) [0..<unat ?nc]"
    from Emplace_full [OF v full k p al, of x] r
    have eq: "it = Ptr ?d (unat k)"
      "v' = v\<lparr>items_m := ArrayPtr (Ptr ?d 0), capacity_m := ?nc, size_m := size_m v + 1\<rparr>"
      "h' = grown v ?nc ?nb h" by simp_all
    note nc = new_capacity [OF v]
    have lt: "size_m v < ?nc" using nc(3) full by simp
    have u: "unat (size_m v + 1) = Suc (unat (size_m v))" using lt by (rule word_less_Suc)
    have le: "size_m v + 1 \<le> ?nc" using lt by (rule word_less_inc_le)
    have s: "unat (size_m v) < unat ?nc" using lt by (simp add: word_less_nat_alt)
    have len: "unat (size_m v) \<le> length ?b"
      using v full by (cases rule: valid_cases) simp_all
    have al': "unat ?nc \<le> max_array" using al by (simp add: can_alloc_def)
    have blk: "block_at ?d h' = Some ?nb"
      unfolding eq by (simp add: block_at_grown [OF v])
    have 1: "valid v' h'"
      unfolding eq by (rule valid_grown [OF v]) (use le al' in simp_all)
    have "take (Suc (unat (size_m v))) ?nb =
        take (unat k) (take (unat (size_m v)) ?b) @ x # drop (unat k) (take (unat (size_m v)) ?b)"
      by (rule take_insert_map) (use uk s len in simp_all)
    then have 2: "elements v' h' = take (unat k) (elements v h) @ x # drop (unat k) (elements v h)"
      unfolding eq by (simp add: elements_grown [OF v] elements_buffer [OF v] u)
    have 3: "ptr_add (begin_it v') k h' = Inr it"
      using uk s blk unfolding eq(1,2) by (simp add: begin_it_def Get_def ptr_add_def)
    have 4: "deref it h' = Inr x"
      using deref_block [OF blk, of "unat k"] uk s unfolding eq(1) by simp
    show ?thesis
      using 1 2 3 4 False u al unfolding eq(2,3) by (simp add: frame_grown [OF v])
  qed
  then show "valid v' h'" and "frame v h v' h'"
    and "elements v' h' = take (unat k) (elements v h) @ x # drop (unat k) (elements v h)"
    and "unat (size_m v') = Suc (unat (size_m v))"
    and "capacity_m v' = (if size_m v < capacity_m v then capacity_m v
                          else if capacity_m v = 0 then 1 else capacity_m v * 2)"
    and "ptr_add (begin_it v') k h' = Inr it" and "deref it h' = Inr x"
    and "size_m v < capacity_m v \<or> can_alloc ?nc h"
    by simp_all
qed

lemma Emplace_total:
  assumes v: "valid v h" and k: "k \<le> size_m v" and p: "ptr_add (begin_it v) k h = Inr pos"
    and "size_m v < capacity_m v \<or> can_alloc (if capacity_m v = 0 then 1 else capacity_m v * 2) h"
  shows "\<exists>it v' h'. Emplace pos (Local x) v h = Inr (it, v', h')"
proof (cases "size_m v < capacity_m v")
  case True
  from v True k p obtain a where "Emplace pos (Local x) v h =
       Inr (Ptr a (unat k), v\<lparr>size_m := size_m v + 1\<rparr>,
            set_block a
              (map (\<lambda>j. if j < unat k then buffer v h ! j else if j = unat k then x
                         else if j \<le> unat (size_m v) then buffer v h ! (j - 1)
                         else buffer v h ! j) [0..<length (buffer v h)]) h)"
    by (rule Emplace_room)
  then show ?thesis by blast
next
  case False
  then have "size_m v = capacity_m v" using v by (simp add: valid_def)
  with assms False show ?thesis by (simp add: Emplace_full)
qed

lemma Reserve_same: "n \<le> capacity_m v \<Longrightarrow> Reserve n v h = Inr (v, h)"
  by (simp add: Reserve_def)

lemma Reserve_fails:
  assumes "capacity_m v < n" and "\<not> can_alloc n h"
  shows "Reserve n v h = Inl (bad_alloc, v, h)"
proof -
  from assms(1) have "n \<noteq> 0" "\<not> n \<le> capacity_m v" by auto
  with assms(2) show ?thesis by (simp add: Reserve_def ArrayPtr_sized_fails)
qed

lemma Reserve_Inr:
  assumes v: "valid v h" and r: "Reserve n v h = Inr (v', h')"
  shows "valid v' h'" and "frame v h v' h'" and "elements v' h' = elements v h"
    and "size_m v' = size_m v"
    and "capacity_m v' = (if n \<le> capacity_m v then capacity_m v else n)"
    and "n \<le> capacity_m v \<or> can_alloc n h"
proof -
  have "valid v' h' \<and> frame v h v' h' \<and> elements v' h' = elements v h \<and>
     size_m v' = size_m v \<and> capacity_m v' = (if n \<le> capacity_m v then capacity_m v else n) \<and>
     (n \<le> capacity_m v \<or> can_alloc n h)"
  proof (cases "n \<le> capacity_m v")
    case True
    with r v show ?thesis by (simp add: Reserve_same frame_refl)
  next
    case False
    then have gt: "capacity_m v < n" by simp
    have al: "can_alloc n h"
    proof (rule ccontr)
      assume "\<not> can_alloc n h"
      from Reserve_fails [OF gt this] r show False by simp
    qed
    let ?nb = "map (\<lambda>k. if k < unat (size_m v) then buffer v h ! k else fresh h k) [0..<unat n]"
    from Reserve_grows [OF v gt al] r
    have eq: "v' = v\<lparr>items_m := ArrayPtr (Ptr (length (blocks h)) 0), capacity_m := n\<rparr>"
      "h' = grown v n ?nb h" by simp_all
    have sc: "size_m v \<le> capacity_m v" using v by (simp add: valid_def)
    then have sn: "size_m v \<le> n" using gt by simp
    have un: "unat (size_m v) \<le> unat n" using sn by (simp add: word_le_nat_alt)
    have sl: "unat (size_m v) \<le> length (buffer v h)"
      using v by (cases rule: valid_cases) (simp_all add: word_le_nat_alt)
    have al': "unat n \<le> max_array" using al by (simp add: can_alloc_def)
    have 1: "valid v' h'"
      unfolding eq by (rule valid_grown [OF v]) (use sn al' in simp_all)
    have "take (unat (size_m v)) ?nb = take (unat (size_m v)) (buffer v h)"
      by (rule take_map_upt) (use un sl in simp_all)
    then have 2: "elements v' h' = elements v h"
      unfolding eq by (simp add: elements_grown [OF v] elements_buffer [OF v])
    show ?thesis using 1 2 False al unfolding eq by (simp add: frame_grown [OF v])
  qed
  then show "valid v' h'" and "frame v h v' h'" and "elements v' h' = elements v h"
    and "size_m v' = size_m v"
    and "capacity_m v' = (if n \<le> capacity_m v then capacity_m v else n)"
    and "n \<le> capacity_m v \<or> can_alloc n h"
    by simp_all
qed

text \<open>Inserting at a position past the end but inside the buffer: nothing is shifted.\<close>

lemma Emplace_past_end:
  assumes v: "valid v h" and k: "size_m v < k" "k \<le> capacity_m v"
    and p: "ptr_add (begin_it v) k h = Inr pos" and r: "Emplace pos (Local x) v h = Inr (it, v', h')"
  shows "valid v' h' \<and> frame v h v' h'"
  using v
proof (cases rule: valid_cases)
  case null
  with k show ?thesis by simp
next
  case (block a)
  have lt: "size_m v < capacity_m v" using k by simp
  then have nle: "\<not> capacity_m v \<le> size_m v" by simp
  have nk: "\<not> k < size_m v" using k(1) by simp
  have pd: "ptr_diff pos (Ptr a 0) h = Inr k"
    using position [OF v k(2) p, of h] block(1) by (simp add: begin_it_def Get_def)
  from r obtain h1 where h1: "put (ArrayPtr (Ptr a 0)) k x h = Inr h1"
    and eq: "v' = v\<lparr>size_m := size_m v + 1\<rparr>" "h' = h1"
    using nle block(1)
    by (auto simp: Emplace_def begin_it_def Get_def pd for_down_done [OF nk] and_then_eq_Inr
        in_this_def Let_def split: sum.splits prod.splits)
  have "unat k < length (buffer v h)"
    using h1 block(2)
    by (auto simp: put_def ArrayPtr_index_def subscript_def and_then_eq_Inr split: if_splits)
  from put_block [OF block(2) this, of x] h1
  have h1': "h1 = set_block a ((buffer v h)[unat k := x]) h" by simp
  have le: "size_m v + 1 \<le> capacity_m v" using lt by (rule word_less_inc_le)
  have "valid v' h'"
    unfolding eq h1' by (rule valid_set_block [OF v block(1)]) (use le block(3) in simp_all)
  moreover have "frame v h v' h'"
    unfolding eq h1' by (rule frame_set_block [OF block(1)]) simp
  ultimately show ?thesis ..
qed

lemma Emplace_Inr:
  assumes v: "valid v h" and p: "ptr_add (begin_it v) k h = Inr pos"
    and r: "Emplace pos (Local x) v h = Inr (it, v', h')"
  shows "valid v' h'" and "frame v h v' h'"
proof -
  have kc: "k \<le> capacity_m v"
    using v p
    by (cases rule: valid_cases)
      (auto simp: begin_it_def Get_def ptr_add_def word_le_nat_alt split: if_splits)
  have "valid v' h' \<and> frame v h v' h'"
  proof (cases "k \<le> size_m v")
    case True
    from Emplace_at(1,2) [OF v True p r] show ?thesis by simp
  next
    case False
    then have "size_m v < k" by simp
    from Emplace_past_end [OF v this kc p r] show ?thesis .
  qed
  then show "valid v' h'" and "frame v h v' h'" by simp_all
qed

lemma assign_to_lengths:
  "assign_to p x t = Inr t' \<Longrightarrow>
   map_option length (block_at a t') = map_option length (block_at a t) \<and>
   length (blocks t') = length (blocks t) \<and> fresh t' = fresh t \<and> avail t' = avail t"
  by (auto simp: assign_to_def block_at_def nth_list_update
      split: pointer.splits option.splits if_splits)

lemma put_lengths:
  "put p i x t = Inr t' \<Longrightarrow>
   map_option length (block_at a t') = map_option length (block_at a t)"
  by (auto simp: put_def and_then_eq_Inr dest: assign_to_lengths)

lemma move_elem_lengths:
  "move_elem dst i src j t = Inr t' \<Longrightarrow>
   map_option length (block_at a t') = map_option length (block_at a t)"
  by (auto simp: move_elem_def and_then_eq_Inr dest: put_lengths)

lemma move_elem_reads:
  "move_elem dst i (ArrayPtr (Ptr a 0)) j t = Inr t' \<Longrightarrow>
   \<exists>b. block_at a t = Some b \<and> unat j < length b"
  by (auto simp: move_elem_def and_then_eq_Inr ArrayPtr_index_def subscript_def
      split: option.splits if_splits)

lemma unat_max_size_t: "unat (- 1 :: size_t) = 2 ^ 64 - 1"
  by (simp add: unsigned_minus_1_eq_mask mask_eq_exp_minus_1)

lemma position_capacity:
  assumes v: "valid v h" and p: "ptr_add (begin_it v) k h = Inr pos"
  shows "k \<le> capacity_m v"
  using v p
  by (cases rule: valid_cases)
    (auto simp: begin_it_def Get_def ptr_add_def word_le_nat_alt split: if_splits)

lemma Erase_empty:
  fixes h :: "'a heap"
  assumes v: "valid v h" and e: "size_m v = 0" and p: "ptr_add (begin_it v) k h = Inr pos"
  shows "Erase pos v h \<noteq> Inr r"
proof
  assume r: "Erase pos v h = Inr r"
  note kc = position_capacity [OF v p]
  let ?body = "\<lambda>i. move_elem (items_m v) i (items_m v) (i + 1)"
  from r obtain h1 where l: "for_up k (0 - 1) ?body h = Inr h1"
    by (auto simp: Erase_def position [OF v kc p] e and_then_eq_Inr in_this_def
        split: sum.splits)
  from v show False
  proof (cases rule: valid_cases)
    case null
    with kc have "k = 0" by simp
    have m: "(0::size_t) < - 1" by (simp add: word_less_nat_alt unat_max_size_t)
    from l null \<open>k = 0\<close> show False
      by (subst (asm) for_up.simps)
        (simp add: m move_elem_def ArrayPtr_index_def subscript_def)
  next
    case (block a)
    let ?c = "capacity_m v"
    let ?I = "\<lambda>t. map_option length (block_at a t) = Some (unat ?c)"
    have cm: "?c < 0 - 1"
      using block(4) by (simp add: word_less_nat_alt max_array_def unat_max_size_t)
    have I0: "?I h" using block(2,3) by simp
    have "\<exists>(t::'a heap) t'. ?I t \<and> ?body ?c t = Inr t'"
    proof -
      have "\<forall>j t t'. ?I t \<longrightarrow> ?body j t = Inr t' \<longrightarrow> ?I t'"
        by (simp add: move_elem_lengths)
      from for_up_InrD [OF l kc cm, where I = ?I, OF I0 this] show ?thesis .
    qed
    then obtain t :: "'a heap" and t' where t: "?I t" "?body ?c t = Inr t'" by blast
    from move_elem_reads [OF t(2) [unfolded block(1)]] t(1)
    have "unat (?c + 1) < unat ?c" by auto
    moreover have "unat (?c + 1) = Suc (unat ?c)" using cm by (rule word_less_Suc)
    ultimately show False by simp
  qed
qed

lemma take_erase_map:
  assumes "k < s" and "s \<le> length b"
  shows "take (s - 1) (map (\<lambda>j. if k \<le> j \<and> j < s - 1 then b ! (j + 1) else b ! j)
           [0..<length b]) =
         take k (take s b) @ drop (Suc k) (take s b)"
  using assms by (intro nth_equalityI) (auto simp: nth_append)

lemma Erase_Inr:
  assumes v: "valid v h" and p: "ptr_add (begin_it v) k h = Inr pos"
    and r: "Erase pos v h = Inr (it, v', h')"
  shows "valid v' h'" and "frame v h v' h'" and "size_m v \<noteq> 0"
    and "unat (size_m v') = unat (size_m v) - 1"
    and "k < size_m v \<Longrightarrow>
         elements v' h' = take (unat k) (elements v h) @ drop (Suc (unat k)) (elements v h)"
proof -
  note kc = position_capacity [OF v p]
  have nz: "size_m v \<noteq> 0" using Erase_empty [OF v _ p] r by auto
  then have pos: "0 < size_m v" by (simp add: word_neq_0_conv)
  have un: "unat (size_m v - 1) = unat (size_m v) - 1" "0 < unat (size_m v)"
    using word_gr_pred [OF pos] by simp_all
  have "valid v' h' \<and> frame v h v' h' \<and> unat (size_m v') = unat (size_m v) - 1 \<and>
    (k < size_m v \<longrightarrow>
       elements v' h' = take (unat k) (elements v h) @ drop (Suc (unat k)) (elements v h))"
    using v
  proof (cases rule: valid_cases)
    case null
    with nz show ?thesis by simp
  next
    case (block a)
    let ?b = "buffer v h"
    let ?n = "size_m v - 1"
    let ?b1 = "map (\<lambda>j. if unat k \<le> j \<and> j < unat ?n then ?b ! (j + 1) else ?b ! j) [0..<length ?b]"
    have sl: "unat (size_m v) \<le> length ?b"
      using valid_size [OF v] block(3) by simp
    have nl: "unat ?n < length ?b" using un sl by simp
    have l: "for_up k ?n (\<lambda>i. move_elem (ArrayPtr (Ptr a 0)) i (ArrayPtr (Ptr a 0)) (i + 1)) h =
        Inr (set_block a ?b1 h)"
    proof (cases "k \<le> ?n")
      case True
      then show ?thesis by (rule shift_left_loop [OF block(2) _ nl])
    next
      case False
      then have nk: "\<not> k < ?n" by simp
      from False have "unat ?n < unat k" by (simp add: word_le_nat_alt)
      then have "?b1 = ?b" by (intro nth_equalityI) auto
      then show ?thesis
        by (simp add: for_up_done [OF nk] set_block_same [OF block(2)])
    qed
    have b1: "block_at a (set_block a ?b1 h) = Some ?b1"
      using block_at_live [OF block(2)] by (simp add: block_at_set_block)
    from r have eq: "v' = v\<lparr>size_m := ?n\<rparr>" "h' = set_block a ?b1 h"
      using block(1)
      by (auto simp: Erase_def position [OF v kc p] l and_then_eq_Inr in_this_def Let_def
          split: sum.splits)
    have le: "?n \<le> capacity_m v"
      using un valid_size [OF v] by (simp add: word_le_nat_alt)
    have 1: "valid v' h'"
      unfolding eq by (rule valid_set_block [OF v block(1)]) (use le block(3) in simp_all)
    have 2: "frame v h v' h'"
      unfolding eq by (rule frame_set_block [OF block(1)]) simp
    have 3: "elements v' h' = take (unat k) (elements v h) @ drop (Suc (unat k)) (elements v h)"
      if "k < size_m v"
    proof -
      from that have "unat k < unat (size_m v)" by (simp add: word_less_nat_alt)
      from take_erase_map [OF this sl]
      show ?thesis
        unfolding eq
        by (simp add: elements_set_block [OF v block(1)] elements_buffer [OF v] un)
    qed
    show ?thesis using 1 2 3 un by (simp add: eq(1))
  qed
  with nz show "valid v' h'" and "frame v h v' h'" and "size_m v \<noteq> 0"
    and "unat (size_m v') = unat (size_m v) - 1"
    and "k < size_m v \<Longrightarrow>
         elements v' h' = take (unat k) (elements v h) @ drop (Suc (unat k)) (elements v h)"
    by simp_all
qed

text \<open>A write through the reference that \<^verbatim>\<open>At\<close> or \<^verbatim>\<open>operator[]\<close> returns.\<close>

lemma assign_to_Inr:
  assumes v: "valid v h" and a: "assign_to (Ptr a i) x h = Inr h'"
    and it: "items_m v = ArrayPtr (Ptr a 0)"
  shows "valid v h'" and "frame v h v h'"
proof -
  note vb = valid_block [OF v it]
  from a vb(1) have "i < length (buffer v h)" and eq: "h' = set_block a ((buffer v h)[i := x]) h"
    by (auto simp: assign_to_def set_block_def split: if_splits)
  show "valid v h'"
    unfolding eq by (rule valid_set_block [OF v it]) (use v vb in \<open>simp_all add: valid_def\<close>)
  show "frame v h v h'"
    unfolding eq by (rule frame_set_block [OF it]) simp
qed

lemma At_Inr:
  "At i v h = Inr r \<Longrightarrow> i < size_m v \<and> (\<exists>a k. raw_ptr_m (items_m v) = Ptr a k \<and> r = Ptr a (k + unat i))"
  by (auto simp: At_def in_this_def ArrayPtr_index_def subscript_def
      split: if_splits sum.splits pointer.splits option.splits)

lemma SimpleVector_index_Inr:
  "SimpleVector_index i v h = Inr r \<Longrightarrow>
   i < size_m v \<and> (\<exists>a k. raw_ptr_m (items_m v) = Ptr a k \<and> r = Ptr a (k + unat i))"
  by (auto simp: SimpleVector_index_def in_this_def ArrayPtr_index_def subscript_def
      split: if_splits sum.splits pointer.splits option.splits)

lemma new_array_Inl: "new_array n h = Inl f \<Longrightarrow> \<not> can_alloc n h"
  by (auto simp: new_array_ok)

lemma in_this_eq_Inr: "in_this s m = Inr x \<longleftrightarrow> m = Inr x"
  by (cases m) (auto simp: in_this_def)

lemma valid_Clear: "valid v h \<Longrightarrow> valid (Clear v) h"
  by (auto simp: Clear_def valid_def split: pointer.splits option.splits)

lemma valid_PopBack: "valid v h \<Longrightarrow> valid (PopBack v) h"
proof -
  assume v: "valid v h"
  have "size_m v - 1 \<le> capacity_m v" if "0 < size_m v"
    using word_gr_pred [OF that] valid_size [OF v] by (simp add: word_le_nat_alt)
  with v show ?thesis
    by (auto simp: PopBack_def valid_def split: pointer.splits option.splits)
qed

lemma items_Clear: "items_m (Clear v) = items_m v"
  by (simp add: Clear_def)

lemma items_PopBack: "items_m (PopBack v) = items_m v"
  by (simp add: PopBack_def)

lemma assign_ref:
  assumes v: "valid v h" and i: "i < size_m v"
    and r: "raw_ptr_m (items_m v) = Ptr a k" "assign_to (Ptr a (k + unat i)) x h = Inr h'"
  shows "valid v h' \<and> frame v h v h'"
proof -
  from v r(1) have it: "items_m v = ArrayPtr (Ptr a 0)"
    by (cases "items_m v") (auto simp: valid_def)
  with r(1) have "k = 0" by simp
  with assign_to_Inr [OF v _ it] r(2) show ?thesis by simp
qed

text \<open>A call that returns has read its argument: it is the call with the value read.\<close>

lemma EmplaceBack_as_Local:
  assumes "EmplaceBack r v h = Inr res"
  shows "\<exists>x. EmplaceBack (Local x) v h = Inr res"
proof (cases r)
  case (Local x)
  with assms show ?thesis by blast
next
  case (Stored p)
  from assms obtain this3 h4 x where
    g: "(if size_m v \<ge> capacity_m v then
          (let new_capacity = (if capacity_m v = 0 then 1 else capacity_m v * 2) in
           and_then (in_this v (ArrayPtr_sized new_capacity h)) (\<lambda>(new_items, h1).
           and_then (in_this v
             (for_up 0 (size_m v) (\<lambda>i. move_elem new_items i (items_m v) i) h1)) (\<lambda>h2.
           let (items, new_items1) = ArrayPtr_swap2 (items_m v) new_items;
               this1 = v\<lparr>items_m := items\<rparr>;
               this2 = this1\<lparr>capacity_m := new_capacity\<rparr>
           in and_then (in_this this2 (ArrayPtr_destroy new_items1 h2)) (\<lambda>h3.
              Inr (this2, h3)))))
        else Inr (v, h)) = Inr (this3, h4)"
    and x: "read_ref r h4 = Inr x"
    and t: "and_then (in_this this3 (put (items_m this3) (size_m this3) x h4)) (\<lambda>h5.
          and_then (in_this this3 (ArrayPtr_index (items_m this3) (size_m this3) h5)) (\<lambda>r.
          Inr (r, this3\<lparr>size_m := size_m this3 + 1\<rparr>, h5))) = Inr res"
    unfolding EmplaceBack_def by (auto simp: and_then_eq_Inr in_this_eq_Inr)
  have "EmplaceBack (Local x) v h = Inr res"
    unfolding EmplaceBack_def g using t by simp
  then show ?thesis ..
qed

lemma Emplace_as_Local:
  assumes "Emplace pos r v h = Inr res"
  shows "\<exists>x. Emplace pos (Local x) v h = Inr res"
proof -
  define nc where "nc = (if capacity_m v = 0 then 1 else capacity_m v * 2)"
  show ?thesis
  proof (cases "capacity_m v \<le> size_m v")
    case True
    with assms show ?thesis
      unfolding Emplace_def Let_def nc_def [symmetric]
      by (simp add: and_then_eq_Inr in_this_eq_Inr split_beta)
        (elim exE conjE, intro exI conjI, assumption+)
  next
    case False
    with assms show ?thesis
      unfolding Emplace_def Let_def nc_def [symmetric]
      by (simp add: and_then_eq_Inr in_this_eq_Inr split_beta)
        (elim exE conjE, intro exI conjI, assumption+)
  qed
qed

lemma mutate_Inr:
  assumes v: "valid v h" and r: "mutate m v h = Inr (v', h')"
  shows "valid v' h' \<and> frame v h v' h'"
proof (cases m)
  case (Do_Reserve n)
  with Reserve_Inr(1,2) [OF v] r show ?thesis by simp
next
  case (Do_Resize T0 n)
  with Resize_Inr(1,2) [OF v] r show ?thesis by simp
next
  case Do_Clear
  with r v show ?thesis by (auto simp: valid_Clear frame_refl items_Clear)
next
  case (Do_PushBack a)
  with r obtain ref where "EmplaceBack a v h = Inr (ref, v', h')"
    by (auto simp: PushBack_Inr)
  from EmplaceBack_as_Local [OF this] obtain x where
    "EmplaceBack (Local x) v h = Inr (ref, v', h')" ..
  from EmplaceBack_Inr(1,5) [OF v this] show ?thesis by simp
next
  case (Do_Insert k a)
  with r obtain pos it where p: "ptr_add (begin_it v) k h = Inr pos"
    and "Emplace pos a v h = Inr (it, v', h')"
    by (auto simp: and_then_eq_Inr in_this_eq_Inr Insert_def)
  from Emplace_as_Local [OF this(2)] obtain x where
    "Emplace pos (Local x) v h = Inr (it, v', h')" ..
  from Emplace_Inr [OF v p this] show ?thesis by simp
next
  case Do_PopBack
  with r v show ?thesis by (auto simp: valid_PopBack frame_refl items_PopBack)
next
  case (Do_Erase k)
  with r obtain pos it where "ptr_add (begin_it v) k h = Inr pos"
    "Erase pos v h = Inr (it, v', h')"
    by (auto simp: and_then_eq_Inr in_this_eq_Inr)
  from Erase_Inr(1,2) [OF v this] show ?thesis by simp
next
  case (Do_At_assign i x)
  with r obtain ref where ref: "At i v h = Inr ref" "assign_to ref x h = Inr h'" and eq: "v' = v"
    by (auto simp: and_then_eq_Inr in_this_eq_Inr)
  from At_Inr [OF ref(1)] ref(2) assign_ref [OF v] show ?thesis unfolding eq by blast
next
  case (Do_index_assign i x)
  with r obtain ref where ref: "SimpleVector_index i v h = Inr ref" "assign_to ref x h = Inr h'"
    and eq: "v' = v"
    by (auto simp: and_then_eq_Inr in_this_eq_Inr)
  from SimpleVector_index_Inr [OF ref(1)] ref(2) assign_ref [OF v] show ?thesis
    unfolding eq by blast
qed

lemma frame_other:
  assumes f: "frame v h v' h'" and u: "valid u h" and a: "apart u v"
  shows "valid u h'" and "elements u h' = elements u h" and "apart u v'"
proof -
  have "valid u h' \<and> elements u h' = elements u h \<and> apart u v'"
    using u
  proof (cases rule: valid_cases)
    case null
    then show ?thesis by (simp add: valid_def elements_def apart_def)
  next
    case (block b)
    from block(2) have lt: "b < length (blocks h)" by (rule block_at_live)
    from a block(1) have "items_m v \<noteq> ArrayPtr (Ptr b 0)" by (auto simp: apart_def)
    with f lt have same: "block_at b h' = block_at b h" by (simp add: frame_def)
    from f lt \<open>items_m v \<noteq> ArrayPtr (Ptr b 0)\<close> have "items_m v' \<noteq> ArrayPtr (Ptr b 0)"
      by (auto simp: frame_def)
    with u block(1) same show ?thesis
      by (simp add: valid_def elements_def apart_def)
  qed
  then show "valid u h'" and "elements u h' = elements u h" and "apart u v'" by simp_all
qed

lemma mutate_all_other:
  "valid v h \<Longrightarrow> valid u h \<Longrightarrow> apart u v \<Longrightarrow> mutate_all ms v h = Inr (v', h') \<Longrightarrow>
   valid v' h' \<and> valid u h' \<and> elements u h' = elements u h \<and> apart u v'"
proof (induction ms arbitrary: v h)
  case Nil
  then show ?case by simp
next
  case (Cons m ms)
  from Cons.prems(4) obtain v1 h1 where m: "mutate m v h = Inr (v1, h1)"
    and ms: "mutate_all ms v1 h1 = Inr (v', h')"
    by (auto simp: and_then_eq_Inr)
  from mutate_Inr [OF Cons.prems(1) m] have v1: "valid v1 h1" and f: "frame v h v1 h1" by simp_all
  note o = frame_other [OF f Cons.prems(2,3)]
  from Cons.IH [OF v1 o(1,3) ms] o(2) show ?case by simp
qed

lemma SimpleVector_copy_empty:
  "size_m other = 0 \<Longrightarrow>
   SimpleVector_copy other h =
     Inr (\<lparr>size_m = 0, capacity_m = 0, items_m = ArrayPtr nullptr\<rparr>, h)"
  by (simp add: SimpleVector_copy_def ArrayPtr_sized_def for_up_done)

lemma SimpleVector_copy_ok:
  assumes v: "valid other h" and s: "size_m other \<noteq> 0" and al: "can_alloc (size_m other) h"
  shows "SimpleVector_copy other h =
     Inr (\<lparr>size_m = size_m other, capacity_m = size_m other,
           items_m = ArrayPtr (Ptr (length (blocks h)) 0)\<rparr>,
          set_block (length (blocks h))
            (map (\<lambda>k. if k < unat (size_m other) then buffer other h ! k else fresh h k)
               [0..<unat (size_m other)])
            (allocated (size_m other) h))"
  by (simp add: SimpleVector_copy_def ArrayPtr_sized_ok [OF al s]
      relocate_fresh [OF v order_refl order_refl])

lemma SimpleVector_copy_fails:
  "size_m other \<noteq> 0 \<Longrightarrow> \<not> can_alloc (size_m other) h \<Longrightarrow>
   SimpleVector_copy other h = Inl (bad_alloc, h)"
  by (simp add: SimpleVector_copy_def ArrayPtr_sized_fails)

lemma SimpleVector_copy_Inr:
  assumes v: "valid other h" and r: "SimpleVector_copy other h = Inr (c, h')"
  shows "valid c h'" and "elements c h' = elements other h"
    and "size_m c = size_m other" and "capacity_m c = size_m other"
    and "frame SimpleVector_default h c h'"
    and "avail h' = avail h - unat (size_m other)"
proof -
  have "valid c h' \<and> elements c h' = elements other h \<and> size_m c = size_m other \<and>
     capacity_m c = size_m other \<and> frame SimpleVector_default h c h' \<and>
     avail h' = avail h - unat (size_m other)"
  proof (cases "size_m other = 0")
    case True
    with r have "c = \<lparr>size_m = 0, capacity_m = 0, items_m = ArrayPtr nullptr\<rparr>" "h' = h"
      by (simp_all add: SimpleVector_copy_empty)
    with True v show ?thesis
      by (simp add: valid_def elements_def frame_def split: pointer.splits option.splits)
  next
    case False
    let ?s = "size_m other"
    let ?d = "length (blocks h)"
    let ?nb = "map (\<lambda>k. if k < unat ?s then buffer other h ! k else fresh h k) [0..<unat ?s]"
    have al: "can_alloc ?s h"
    proof (rule ccontr)
      assume "\<not> can_alloc ?s h"
      from SimpleVector_copy_fails [OF False this] r show False by simp
    qed
    from SimpleVector_copy_ok [OF v False al] r
    have eq: "c = \<lparr>size_m = ?s, capacity_m = ?s, items_m = ArrayPtr (Ptr ?d 0)\<rparr>"
      "h' = set_block ?d ?nb (allocated ?s h)" by simp_all
    have blk: "block_at a h' = (if a = ?d then Some ?nb else block_at a h)" for a
      unfolding eq by (simp add: block_at_set_block block_at_allocated)
    have sl: "unat ?s \<le> length (buffer other h)"
      using v by (cases rule: valid_cases) (simp_all add: word_le_nat_alt)
    have nb: "?nb = take (unat ?s) (buffer other h)"
      using sl by (intro nth_equalityI) auto
    have 1: "valid c h'"
      using al by (simp add: valid_def blk eq(1) can_alloc_def)
    have 2: "elements c h' = elements other h"
      using sl by (simp add: elements_def blk eq(1) nb elements_buffer [OF v, unfolded elements_def])
    have 3: "frame SimpleVector_default h c h'"
      by (auto simp: frame_def blk eq(1)) (simp add: eq(2))+
    show ?thesis using 1 2 3 by (simp add: eq)
  qed
  then show "valid c h'" and "elements c h' = elements other h"
    and "size_m c = size_m other" and "capacity_m c = size_m other"
    and "frame SimpleVector_default h c h'"
    and "avail h' = avail h - unat (size_m other)"
    by simp_all
qed

lemma SimpleVector_copy_total:
  "valid other h \<Longrightarrow> size_m other = 0 \<or> can_alloc (size_m other) h \<Longrightarrow>
   \<exists>c h'. SimpleVector_copy other h = Inr (c, h')"
  by (cases "size_m other = 0") (auto simp: SimpleVector_copy_empty SimpleVector_copy_ok)

lemma apart_default [simp]: "apart u SimpleVector_default"
  by (auto simp: apart_def)

lemma std_swap_eq: "std_swap a b S = S(a := S b, b := S a)"
  by (simp add: std_swap_def)

lemma SimpleVector_swap_eq: "SimpleVector_swap this other V = V(this := V other, other := V this)"
  by (rule ext) (simp add: SimpleVector_swap_def ArrayPtr_swap_def std_swap_eq Let_def)

lemma block_at_released_valid:
  "valid v h \<Longrightarrow>
   block_at a (released (raw_ptr_m (items_m v)) H) =
     (if items_m v = ArrayPtr (Ptr a 0) then None else block_at a H)"
  by (erule valid_cases) (auto simp: block_at_released)

lemma frame_blocks:
  "frame v h v' h' \<Longrightarrow> block_at a h = Some b \<Longrightarrow> items_m v \<noteq> ArrayPtr (Ptr a 0) \<Longrightarrow>
   block_at a h' = Some b"
  by (auto simp: frame_def dest: block_at_live)

lemma copy_assign_fails:
  "this \<noteq> rhs \<Longrightarrow> SimpleVector_copy (V rhs) h = Inl (e, h1) \<Longrightarrow>
   copy_assign this rhs V h = Inl (e, V, h1)"
  by (simp add: copy_assign_def)

lemma copy_assign_distinct:
  assumes ne: "this \<noteq> rhs" and vt: "valid (V this) h" and vr: "valid (V rhs) h"
    and c: "SimpleVector_copy (V rhs) h = Inr (c, h1)"
  shows "copy_assign this rhs V h =
     Inr (V(this := c), released (raw_ptr_m (items_m (V this))) h1)"
proof -
  let ?S = "\<lambda>r. case r of None \<Rightarrow> c | Some q \<Rightarrow> V q"
  let ?W = "SimpleVector_swap (Some this) None ?S"
  have W: "?W None = V this" "(\<lambda>q. ?W (Some q)) = V(this := c)"
    by (auto simp: SimpleVector_swap_eq)
  note f = SimpleVector_copy_Inr(5) [OF vr c]
  have "delete_array (raw_ptr_m (items_m (V this))) h1 =
      Inr (released (raw_ptr_m (items_m (V this))) h1)"
    using vt
  proof (cases rule: valid_cases)
    case null
    then show ?thesis by (simp add: delete_array_ok)
  next
    case (block a)
    from frame_blocks [OF f block(2)] have "block_at a h1 = Some (buffer (V this) h)" by simp
    with block(1) show ?thesis by (simp add: delete_array_ok)
  qed
  then show ?thesis
    using ne c by (simp add: copy_assign_def Let_def W SimpleVector_destroy_def ArrayPtr_destroy_def)
qed

lemma copy_assign_Inr:
  assumes ne: "this \<noteq> rhs" and vt: "valid (V this) h" and vr: "valid (V rhs) h"
    and r: "copy_assign this rhs V h = Inr (V', h')"
  shows "\<forall>q. q \<noteq> this \<longrightarrow> V' q = V q" and "valid (V' this) h'"
    and "frame (V this) h (V' this) h'"
    and "size_m (V' this) = size_m (V rhs)" and "capacity_m (V' this) = size_m (V rhs)"
    and "elements (V' this) h' = elements (V rhs) h"
proof -
  from r ne obtain c h1 where c: "SimpleVector_copy (V rhs) h = Inr (c, h1)"
    by (auto simp: copy_assign_def and_then_eq_Inr in_this_eq_Inr)
  let ?p = "raw_ptr_m (items_m (V this))"
  from copy_assign_distinct [OF ne vt vr c] r
  have eq: "V' = V(this := c)" "h' = released ?p h1" by simp_all
  note s = SimpleVector_copy_Inr [OF vr c]
  have cd: "items_m c = ArrayPtr nullptr \<or> items_m c = ArrayPtr (Ptr (length (blocks h)) 0)"
    using SimpleVector_copy_empty [of "V rhs" h] SimpleVector_copy_ok [OF vr, of ] c
      SimpleVector_copy_fails [of "V rhs" h]
    by (cases "size_m (V rhs) = 0"; cases "can_alloc (size_m (V rhs)) h") auto
  have nt: "items_m (V this) \<noteq> ArrayPtr (Ptr (length (blocks h)) 0)"
    using valid_block(3) [OF vt] by auto
  have blk: "items_m c = ArrayPtr (Ptr d 0) \<Longrightarrow> block_at d h' = block_at d h1" for d
    unfolding eq using cd nt by (auto simp: block_at_released_valid [OF vt])
  have 1: "valid c h'"
    using s(1) blk by (cases "items_m c") (auto simp: valid_def split: pointer.splits)
  have 2: "elements c h' = elements c h1"
    using s(1) blk by (cases "items_m c") (auto simp: valid_def elements_def split: pointer.splits)
  have 3: "frame (V this) h c h'"
    using s(5) cd unfolding eq
    by (auto simp: frame_def block_at_released_valid [OF vt])
  have 4: "elements c h' = elements (V rhs) h" using 2 s(2) by simp
  show "\<forall>q. q \<noteq> this \<longrightarrow> V' q = V q" by (simp add: eq)
  show "valid (V' this) h'" using 1 by (simp add: eq(1))
  show "frame (V this) h (V' this) h'" using 3 by (simp add: eq(1))
  show "size_m (V' this) = size_m (V rhs)" "capacity_m (V' this) = size_m (V rhs)"
    using s(3,4) by (simp_all add: eq(1))
  show "elements (V' this) h' = elements (V rhs) h" using 4 by (simp add: eq(1))
qed

lemma copy_assign_total:
  assumes ne: "this \<noteq> rhs" and vt: "valid (V this) h" and vr: "valid (V rhs) h"
    and al: "size_m (V rhs) = 0 \<or> can_alloc (size_m (V rhs)) h"
  shows "\<exists>V' h'. copy_assign this rhs V h = Inr (V', h')"
proof -
  from SimpleVector_copy_total [OF vr al] obtain c h1
    where "SimpleVector_copy (V rhs) h = Inr (c, h1)" by blast
  from copy_assign_distinct [OF ne vt vr this] show ?thesis by blast
qed

lemma delete_array_owner:
  assumes "owner p h"
  shows "\<exists>h'. delete_array (raw_ptr_m p) h = Inr h' \<and>
           length (blocks h') = length (blocks h) \<and> avail h \<le> avail h' \<and>
           fresh h' = fresh h \<and>
           (\<forall>a. raw_ptr_m p \<noteq> Ptr a 0 \<longrightarrow> block_at a h' = block_at a h) \<and>
           (\<forall>a. raw_ptr_m p = Ptr a 0 \<longrightarrow> block_at a h' = None) \<and>
           (raw_ptr_m p = nullptr \<longrightarrow> h' = h)"
proof (cases "raw_ptr_m p")
  case nullptr
  then show ?thesis by (simp add: delete_array_def)
next
  case (Ptr a k)
  with assms obtain b where k: "k = 0" and b: "block_at a h = Some b"
    by (auto simp: owner_def)
  from b have "a < length (blocks h)" by (simp add: block_at_def split: if_splits)
  with Ptr k b show ?thesis
    by (simp add: delete_array_def block_at_def nth_list_update)
qed

lemma quiet_Inr [simp]: "quiet (Inr x)"
  by (simp add: quiet_def)

lemma quiet_ub [simp]: "quiet (Inl (undefined_behaviour, s))"
  by (simp add: quiet_def)

lemma harmless_Inr [simp]: "harmless s (Inr x)"
  by (simp add: harmless_def)

lemma harmless_same [simp]: "harmless s (Inl (e, s))"
  by (simp add: harmless_def)

lemma quiet_harmless: "quiet m \<Longrightarrow> harmless s m"
  by (auto simp: quiet_def harmless_def split: sum.splits)

lemma quiet_and_then: "quiet m \<Longrightarrow> (\<And>x. quiet (f x)) \<Longrightarrow> quiet (and_then m f)"
  by (cases m) (auto simp: quiet_def and_then_def)

lemma harmless_and_then:
  "harmless s m \<Longrightarrow> (\<And>x. harmless s (f x)) \<Longrightarrow> harmless s (and_then m f)"
  by (cases m) (auto simp: harmless_def and_then_def)

lemma quiet_in_this: "quiet m \<Longrightarrow> quiet (in_this s m)"
  by (cases m) (auto simp: quiet_def in_this_def)

lemma harmless_in_this: "harmless h m \<Longrightarrow> harmless (s, h) (in_this s m)"
  by (cases m) (auto simp: harmless_def in_this_def)

lemma quiet_for_up: "(\<And>k t. quiet (body k t)) \<Longrightarrow> quiet (for_up i n body s)"
proof (induction i n body s rule: for_up.induct)
  case (1 i n body s)
  show ?case
  proof (cases "i < n")
    case True
    have "quiet (and_then (body i s) (for_up (i + 1) n body))"
    proof (rule quiet_and_then)
      show "quiet (body i s)" by (rule "1.prems")
      show "quiet (for_up (i + 1) n body x)" for x
        by (rule "1.IH" [OF True "1.prems"])
    qed
    with True show ?thesis by (subst for_up.simps) simp
  next
    case False
    then show ?thesis by (simp add: for_up_done)
  qed
qed

lemma quiet_for_down: "(\<And>k t. quiet (body k t)) \<Longrightarrow> quiet (for_down i n body s)"
proof (induction i n body s rule: for_down.induct)
  case (1 i n body s)
  show ?case
  proof (cases "i > n")
    case True
    have "quiet (and_then (body i s) (for_down (i - 1) n body))"
    proof (rule quiet_and_then)
      show "quiet (body i s)" by (rule "1.prems")
      show "quiet (for_down (i - 1) n body x)" for x
        by (rule "1.IH" [OF True "1.prems"])
    qed
    with True show ?thesis by (subst for_down.simps) simp
  next
    case False
    then show ?thesis by (simp add: for_down_done)
  qed
qed

lemma quiet_ptr_add: "quiet (ptr_add p n h)"
  by (simp add: ptr_add_def split: pointer.splits option.splits)

lemma quiet_ptr_diff: "quiet (ptr_diff p q h)"
  by (cases p; cases q) simp_all

lemma quiet_subscript: "quiet (subscript p i h)"
  by (simp add: subscript_def split: pointer.splits option.splits)

lemma quiet_deref: "quiet (deref p h)"
  by (simp add: deref_def split: pointer.splits option.splits)

lemma quiet_read_ref: "quiet (read_ref r h)"
  by (cases r) (simp_all add: read_ref_def quiet_deref)

lemma quiet_assign_to: "quiet (assign_to p x h)"
  by (simp add: assign_to_def split: pointer.splits option.splits)

lemma quiet_delete_array: "quiet (delete_array p h)"
  by (simp add: delete_array_def split: pointer.splits option.splits)

lemma quiet_put: "quiet (put dst i x h)"
  by (simp add: put_def ArrayPtr_index_def quiet_and_then quiet_subscript quiet_assign_to)

lemma quiet_move_elem: "quiet (move_elem dst i src j h)"
  by (simp add: move_elem_def ArrayPtr_index_def quiet_and_then quiet_subscript quiet_deref
      quiet_put)

lemma harmless_new_array: "harmless h (new_array n h)"
  by (simp add: new_array_def)

lemma harmless_ArrayPtr_sized: "harmless h (ArrayPtr_sized n h)"
  by (simp add: ArrayPtr_sized_def harmless_and_then harmless_new_array split_beta)

lemmas quiet_steps =
  quiet_and_then quiet_in_this quiet_for_up quiet_for_down quiet_ptr_add quiet_ptr_diff
  quiet_subscript quiet_deref quiet_assign_to quiet_delete_array quiet_put quiet_move_elem
  quiet_read_ref

lemma harmless_alloc: "harmless (s, h) (in_this s (ArrayPtr_sized n h))"
  by (rule harmless_in_this) (rule harmless_ArrayPtr_sized)

lemma harmless_quiet: "quiet m \<Longrightarrow> harmless s' (in_this s m)"
  by (rule quiet_harmless) (rule quiet_in_this)

lemmas harmless_steps =
  harmless_and_then harmless_alloc
  harmless_quiet [OF quiet_for_up] harmless_quiet [OF quiet_for_down]
  harmless_quiet [OF quiet_put] harmless_quiet [OF quiet_ptr_add]
  harmless_quiet [OF quiet_ptr_diff] harmless_quiet [OF quiet_delete_array]
  harmless_quiet [OF quiet_subscript] harmless_quiet [OF quiet_assign_to]
  harmless_quiet [OF quiet_read_ref]

lemma harmless_Reserve: "harmless (v, h) (Reserve n v h)"
  unfolding Reserve_def
  by (auto intro!: harmless_steps quiet_steps simp: Let_def split_beta ArrayPtr_destroy_def)

lemma harmless_Resize: "harmless (v, h) (Resize T0 n v h)"
  unfolding Resize_def
  by (auto intro!: harmless_steps quiet_steps simp: Let_def split_beta ArrayPtr_destroy_def)

lemma harmless_EmplaceBack: "harmless (v, h) (EmplaceBack x v h)"
  unfolding EmplaceBack_def
  by (auto intro!: harmless_steps quiet_steps
      simp: Let_def split_beta ArrayPtr_destroy_def ArrayPtr_index_def)

lemma harmless_PushBack: "harmless (v, h) (PushBack x v h)"
  unfolding PushBack_def
  by (auto intro!: harmless_and_then harmless_EmplaceBack simp: split_beta)

lemma harmless_Emplace: "harmless (v, h) (Emplace pos x v h)"
  unfolding Emplace_def
  by (auto intro!: harmless_steps quiet_steps
      simp: Let_def split_beta ArrayPtr_destroy_def ArrayPtr_index_def)

lemma harmless_Erase: "harmless (v, h) (Erase pos v h)"
  unfolding Erase_def
  by (auto intro!: harmless_steps quiet_steps simp: Let_def split_beta)

lemma harmless_At: "harmless (v, h) (At i v h)"
  unfolding At_def
  by (auto intro!: harmless_steps quiet_steps simp: ArrayPtr_index_def)

lemma harmless_index: "harmless (v, h) (SimpleVector_index i v h)"
  unfolding SimpleVector_index_def
  by (auto intro!: harmless_steps quiet_steps simp: ArrayPtr_index_def)

lemma harmless_mutate: "harmless (v, h) (mutate m v h)"
  by (cases m)
    (auto intro!: harmless_and_then harmless_Reserve harmless_Resize harmless_PushBack
      harmless_Emplace harmless_Erase harmless_At harmless_index harmless_steps
      simp: Insert_def split_beta)

lemma for_up_Inr_inv:
  assumes "for_up i n body s = Inr s'" and "I s"
    and "\<forall>k t t'. I t \<longrightarrow> body k t = Inr t' \<longrightarrow> I t'"
  shows "I s'"
  using assms
proof (induction i n body s rule: for_up.induct)
  case (1 i n body s)
  show ?case
  proof (cases "i < n")
    case True
    with "1.prems"(1) obtain t where t: "body i s = Inr t" "for_up (i + 1) n body t = Inr s'"
      by (subst (asm) for_up.simps) (auto simp: and_then_eq_Inr)
    from "1.prems"(2,3) t(1) have "I t" by blast
    from "1.IH" [OF True t(2) this "1.prems"(3)] show ?thesis .
  next
    case False
    with "1.prems"(1,2) show ?thesis by (simp add: for_up_done)
  qed
qed

lemma put_Inr:
  assumes "put (ArrayPtr (Ptr a 0)) i x t = Inr t'"
  shows "\<exists>b. block_at a t = Some b \<and> t' = set_block a (b[unat i := x]) t"
  using assms
  by (auto simp: put_def ArrayPtr_index_def subscript_def assign_to_def set_block_def
      and_then_eq_Inr split: option.splits if_splits)

lemma put_null: "put (ArrayPtr nullptr) i x t \<noteq> Inr t'"
  by (simp add: put_def ArrayPtr_index_def subscript_def and_then_def)

lemma put_rewrites:
  assumes p: "put (ArrayPtr (Ptr a 0)) i x t = Inr t'"
    and t: "\<exists>b. length b = n \<and> block_at a h = Some c \<and> t = set_block a b h"
  shows "\<exists>b. length b = n \<and> block_at a h = Some c \<and> t' = set_block a b h"
proof -
  from t obtain b where b: "length b = n" "block_at a h = Some c" "t = set_block a b h" by blast
  from put_Inr [OF p] obtain b' where b': "block_at a t = Some b'"
    "t' = set_block a (b'[unat i := x]) t" by blast
  from b(2) have "a < length (blocks h)" by (rule block_at_live)
  with b' b(3) have "b' = b" by (simp add: block_at_set_block)
  with b b' show ?thesis by (intro exI [of _ "b[unat i := x]"]) simp
qed

lemma fill_Inr:
  assumes f: "for_up i n (\<lambda>j. put (ArrayPtr (Ptr a 0)) j x) h = Inr h'"
    and c: "block_at a h = Some c"
  shows "\<exists>b. length b = length c \<and> h' = set_block a b h"
proof -
  let ?I = "\<lambda>t. \<exists>b. length b = length c \<and> block_at a h = Some c \<and> t = set_block a b h"
  have "?I h" using c by (intro exI [of _ c]) (simp add: set_block_same)
  moreover have "\<forall>k t t'. ?I t \<longrightarrow> put (ArrayPtr (Ptr a 0)) k x t = Inr t' \<longrightarrow> ?I t'"
    by (intro allI impI) (rule put_rewrites)
  ultimately have "?I h'" by (rule for_up_Inr_inv [OF f])
  then show ?thesis by blast
qed

lemma init_loop_Inr:
  assumes "init_loop xs i (ArrayPtr (Ptr a 0)) t = Inr h'"
    and "\<exists>b. length b = n \<and> block_at a h = Some c \<and> t = set_block a b h"
  shows "\<exists>b. length b = n \<and> h' = set_block a b h"
  using assms
proof (induction xs arbitrary: i t)
  case Nil
  then show ?case by auto
next
  case (Cons x xs)
  from Cons.prems(1) obtain t1 where t1: "put (ArrayPtr (Ptr a 0)) i x t = Inr t1"
    "init_loop xs (i + 1) (ArrayPtr (Ptr a 0)) t1 = Inr h'"
    by (auto simp: and_then_eq_Inr)
  from put_rewrites [OF t1(1) Cons.prems(2)] show ?case by (rule Cons.IH [OF t1(2)])
qed

lemma init_loop_null: "init_loop xs i (ArrayPtr nullptr) h = Inr h' \<Longrightarrow> h' = h"
  by (cases xs) (simp_all add: and_then_eq_Inr put_null)

lemma ArrayPtr_sized_Inr:
  assumes "ArrayPtr_sized n h = Inr (items, h1)"
  shows "(n = 0 \<and> items = ArrayPtr nullptr \<and> h1 = h) \<or>
         (n \<noteq> 0 \<and> can_alloc n h \<and> items = ArrayPtr (Ptr (length (blocks h)) 0) \<and>
          h1 = allocated n h)"
proof (cases "n = 0")
  case True
  with assms show ?thesis by (simp add: ArrayPtr_sized_def)
next
  case False
  show ?thesis
  proof (cases "can_alloc n h")
    case True
    with assms False show ?thesis by (simp add: ArrayPtr_sized_ok)
  next
    case no: False
    with assms False show ?thesis by (simp add: ArrayPtr_sized_fails)
  qed
qed

lemma fresh_vector:
  assumes al: "can_alloc n h" and s: "s \<le> n" and b: "length b = unat n"
    and v: "v = \<lparr>size_m = s, capacity_m = n, items_m = ArrayPtr (Ptr (length (blocks h)) 0)\<rparr>"
    and h': "h' = set_block (length (blocks h)) b (allocated n h)"
  shows "valid v h' \<and> frame SimpleVector_default h v h'"
proof -
  have blk: "block_at a h' = (if a = length (blocks h) then Some b else block_at a h)" for a
    unfolding h' by (simp add: block_at_set_block block_at_allocated allocated_fields)
  have 1: "valid v h'"
    using al s b by (simp add: valid_def blk v can_alloc_def)
  have 2: "frame SimpleVector_default h v h'"
    by (auto simp: frame_def blk v) (simp_all add: h' allocated_fields)
  from 1 2 show ?thesis ..
qed

lemma empty_vector:
  "valid \<lparr>size_m = 0, capacity_m = 0, items_m = ArrayPtr nullptr\<rparr> h \<and>
   frame SimpleVector_default h \<lparr>size_m = 0, capacity_m = 0, items_m = ArrayPtr nullptr\<rparr> h"
  by (simp add: valid_def frame_def)

lemma allocated_block:
  "block_at (length (blocks h)) (allocated n h) = Some (map (fresh h) [0..<unat n])"
  by (simp add: block_at_allocated)

lemma SimpleVector_reserved_Inr:
  assumes r: "SimpleVector_reserved proxy h = Inr (v, h')"
  shows "valid v h' \<and> frame SimpleVector_default h v h'"
proof (cases "capacity proxy = 0")
  case True
  with r have "v = \<lparr>size_m = 0, capacity_m = 0, items_m = ArrayPtr nullptr\<rparr>" "h' = h"
    by (auto simp: SimpleVector_reserved_def ArrayPtr_adopt_def)
  then show ?thesis by (simp add: empty_vector)
next
  case False
  let ?n = "capacity proxy"
  from False have pos: "?n > 0" by (simp add: word_greater_zero_iff)
  have al: "can_alloc ?n h"
  proof (rule ccontr)
    assume "\<not> can_alloc ?n h"
    with r pos show False by (simp add: SimpleVector_reserved_def new_array_fails)
  qed
  from r pos have eq:
    "v = \<lparr>size_m = 0, capacity_m = ?n, items_m = ArrayPtr (Ptr (length (blocks h)) 0)\<rparr>"
    "h' = allocated ?n h"
    by (auto simp: SimpleVector_reserved_def new_array_ok [OF al] ArrayPtr_adopt_def)
  have "h' = set_block (length (blocks h)) (map (fresh h) [0..<unat ?n]) (allocated ?n h)"
    by (simp add: eq(2) set_block_same [OF allocated_block])
  from fresh_vector [OF al _ _ eq(1) this] show ?thesis by simp
qed

lemma filled_Inr:
  assumes a: "ArrayPtr_sized n h = Inr (items, h1)"
    and f: "for_up 0 n (\<lambda>i. put items i x) h1 = Inr h'"
  shows "valid \<lparr>size_m = n, capacity_m = n, items_m = items\<rparr> h' \<and>
         frame SimpleVector_default h \<lparr>size_m = n, capacity_m = n, items_m = items\<rparr> h'"
proof (cases "n = 0")
  case True
  with ArrayPtr_sized_Inr [OF a] f have "items = ArrayPtr nullptr" "h' = h"
    by (simp_all add: for_up_done)
  with True show ?thesis by (simp add: empty_vector)
next
  case False
  with ArrayPtr_sized_Inr [OF a]
  have al: "can_alloc n h" and it: "items = ArrayPtr (Ptr (length (blocks h)) 0)"
    and h1: "h1 = allocated n h" by simp_all
  from fill_Inr [OF f [unfolded it h1] allocated_block]
  obtain b where b: "length b = unat n" "h' = set_block (length (blocks h)) b (allocated n h)"
    by auto
  from fresh_vector [OF al order_refl b(1) _ b(2)] it show ?thesis by simp
qed

lemma SimpleVector_init_Inr:
  assumes r: "SimpleVector_init xs h = Inr (v, h')"
  shows "valid v h' \<and> frame SimpleVector_default h v h'"
proof -
  let ?n = "word_of_nat (length xs) :: size_t"
  from r obtain items h1 where a: "ArrayPtr_sized ?n h = Inr (items, h1)"
    and l: "init_loop xs 0 items h1 = Inr h'"
    and v: "v = \<lparr>size_m = ?n, capacity_m = ?n, items_m = items\<rparr>"
    by (auto simp: SimpleVector_init_def and_then_eq_Inr)
  show ?thesis
  proof (cases "?n = 0")
    case True
    with ArrayPtr_sized_Inr [OF a] have "items = ArrayPtr nullptr" "h1 = h" by simp_all
    with l have "h' = h" by (simp add: init_loop_null)
    with True v \<open>items = ArrayPtr nullptr\<close> show ?thesis by (simp add: empty_vector)
  next
    case False
    with ArrayPtr_sized_Inr [OF a]
    have al: "can_alloc ?n h" and it: "items = ArrayPtr (Ptr (length (blocks h)) 0)"
      and h1: "h1 = allocated ?n h" by simp_all
    have "\<exists>b. length b = unat ?n \<and>
        block_at (length (blocks h)) (allocated ?n h) = Some (map (fresh h) [0..<unat ?n]) \<and>
        allocated ?n h = set_block (length (blocks h)) b (allocated ?n h)"
      by (intro exI [of _ "map (fresh h) [0..<unat ?n]"])
        (simp add: allocated_block set_block_same [OF allocated_block])
    from init_loop_Inr [OF l [unfolded it h1] this]
    obtain b where b: "length b = unat ?n" "h' = set_block (length (blocks h)) b (allocated ?n h)"
      by auto
    from fresh_vector [OF al order_refl b(1) _ b(2)] it v show ?thesis by simp
  qed
qed

lemma construct_Inr:
  assumes "construct c h = Inr (v, h')"
  shows "valid v h' \<and> frame SimpleVector_default h v h'"
proof (cases c)
  case New_default
  with assms show ?thesis by (auto simp: frame_def)
next
  case (New_reserved n)
  with assms show ?thesis by (simp add: SimpleVector_reserved_Inr)
next
  case (New_sized T0 n)
  with assms show ?thesis
    by (auto simp: SimpleVector_sized_def and_then_eq_Inr filled_Inr)
next
  case (New_filled n x)
  with assms show ?thesis
    by (auto simp: SimpleVector_filled_def and_then_eq_Inr filled_Inr)
next
  case (New_init xs)
  with assms show ?thesis by (simp add: SimpleVector_init_Inr)
qed

lemma quiet_init_loop: "quiet (init_loop xs i items h)"
  by (induction xs arbitrary: i h) (simp_all add: quiet_and_then quiet_put)

lemma harmless_construct: "harmless h (construct c h)"
proof (cases c)
  case New_default
  then show ?thesis by simp
next
  case (New_reserved n)
  then show ?thesis
    by (auto intro!: harmless_and_then harmless_new_array
        simp: SimpleVector_reserved_def split_beta)
next
  case (New_sized T0 n)
  then show ?thesis
    by (auto intro!: harmless_and_then harmless_ArrayPtr_sized quiet_harmless [OF quiet_for_up]
        quiet_put simp: SimpleVector_sized_def split_beta)
next
  case (New_filled n x)
  then show ?thesis
    by (auto intro!: harmless_and_then harmless_ArrayPtr_sized quiet_harmless [OF quiet_for_up]
        quiet_put simp: SimpleVector_filled_def split_beta)
next
  case (New_init xs)
  then show ?thesis
    by (auto intro!: harmless_and_then harmless_ArrayPtr_sized quiet_harmless [OF quiet_init_loop]
        simp: SimpleVector_init_def split_beta)
qed

lemma harmless_copy: "harmless h (SimpleVector_copy other h)"
  by (auto intro!: harmless_and_then harmless_ArrayPtr_sized quiet_harmless [OF quiet_for_up]
      quiet_move_elem simp: SimpleVector_copy_def split_beta)

lemma harmless_copy_assign: "harmless (V, h) (copy_assign this rhs V h)"
  by (auto intro!: harmless_and_then harmless_in_this [OF harmless_copy]
      harmless_quiet [OF quiet_delete_array]
      simp: copy_assign_def split_beta Let_def SimpleVector_destroy_def ArrayPtr_destroy_def)

lemma quiet_move_assign: "quiet (move_assign this rhs V h)"
proof (cases "delete_array (raw_ptr_m (items_m (V this))) h")
  case (Inl f)
  with quiet_delete_array [of "raw_ptr_m (items_m (V this))" h] show ?thesis
    by (cases f) (simp add: move_assign_def ArrayPtr_move_assign_def quiet_def in_this_def)
next
  case (Inr h1)
  then show ?thesis
    by (simp add: move_assign_def ArrayPtr_move_assign_def Let_def)
qed

lemma apart_sym: "apart u v \<Longrightarrow> apart v u"
  by (auto simp: apart_def)

lemma apart_empty [simp]:
  "apart u \<lparr>size_m = 0, capacity_m = 0, items_m = ArrayPtr nullptr\<rparr>"
  "apart \<lparr>size_m = 0, capacity_m = 0, items_m = ArrayPtr nullptr\<rparr> u"
  by (auto simp: apart_def)

lemma valid_empty [simp]:
  "valid \<lparr>size_m = 0, capacity_m = 0, items_m = ArrayPtr nullptr\<rparr> h"
  by (simp add: valid_def)

lemma valid_released_other:
  assumes u: "valid u h" and v: "valid v h" and a: "apart u v"
  shows "valid u (released (raw_ptr_m (items_m v)) h)"
  using u
proof (cases rule: valid_cases)
  case null
  then show ?thesis by (simp add: valid_def)
next
  case (block b)
  from a block(1) have "items_m v \<noteq> ArrayPtr (Ptr b 0)" by (auto simp: apart_def)
  with u block(1) show ?thesis
    by (simp add: valid_def block_at_released_valid [OF v])
qed

lemma SimpleVector_destroy_Inr:
  assumes v: "valid v h"
  shows "SimpleVector_destroy v h = Inr (released (raw_ptr_m (items_m v)) h)"
  using v
proof (cases rule: valid_cases)
  case null
  then show ?thesis
    by (simp add: SimpleVector_destroy_def ArrayPtr_destroy_def delete_array_ok)
next
  case (block a)
  then show ?thesis
    by (simp add: SimpleVector_destroy_def ArrayPtr_destroy_def delete_array_ok)
qed

lemma SimpleVector_move_eq:
  "SimpleVector_move other =
     (other, \<lparr>size_m = 0, capacity_m = 0, items_m = ArrayPtr nullptr\<rparr>)"
  by (simp add: SimpleVector_move_def ArrayPtr_move_def)

lemma move_assign_distinct:
  assumes ne: "this \<noteq> rhs" and v: "valid (V this) h"
  shows "move_assign this rhs V h =
     Inr (V(this := V rhs, rhs := \<lparr>size_m = 0, capacity_m = 0, items_m = ArrayPtr nullptr\<rparr>),
          released (raw_ptr_m (items_m (V this))) h)"
proof -
  from SimpleVector_destroy_Inr [OF v]
  have d: "delete_array (raw_ptr_m (items_m (V this))) h =
      Inr (released (raw_ptr_m (items_m (V this))) h)"
    by (simp add: SimpleVector_destroy_def ArrayPtr_destroy_def)
  show ?thesis
    using ne by (auto simp: move_assign_def ArrayPtr_move_assign_def d Let_def fun_eq_iff)
qed

lemma sound_start: "sound (program_start h)"
  by (simp add: sound_def program_start_def)

lemma sound_frame:
  assumes s: "sound w" and i: "alive w i"
    and f: "frame (vectors w i) (free_store w) v' h'" and v': "valid v' h'"
  shows "sound (w\<lparr>free_store := h', vectors := (vectors w)(i := v')\<rparr>)"
proof -
  have other: "valid (vectors w k) h' \<and> apart (vectors w k) v'" if "alive w k" "k \<noteq> i" for k
  proof -
    from s that i have "valid (vectors w k) (free_store w)" "apart (vectors w k) (vectors w i)"
      by (simp_all add: sound_def)
    from frame_other(1,3) [OF f this] show ?thesis by simp
  qed
  have 1: "valid (((vectors w)(i := v')) k) h'" if "alive w k" for k
    using that other v' by (cases "k = i") simp_all
  have 2: "apart (((vectors w)(i := v')) k) (((vectors w)(i := v')) l)"
    if "alive w k" "alive w l" "k \<noteq> l" for k l
  proof (cases "k = i")
    case True
    with that other [of l] show ?thesis by (simp add: apart_sym)
  next
    case False
    show ?thesis
    proof (cases "l = i")
      case True
      with that False other [of k] show ?thesis by simp
    next
      case no: False
      with s that False show ?thesis by (simp add: sound_def)
    qed
  qed
  from 1 2 show ?thesis by (simp add: sound_def)
qed

lemma sound_new:
  assumes s: "sound w" and i: "\<not> alive w i"
    and f: "frame SimpleVector_default (free_store w) v h'" and v: "valid v h'"
  shows "sound (w\<lparr>free_store := h', vectors := (vectors w)(i := v),
                  alive := (alive w)(i := True)\<rparr>)"
proof -
  let ?w = "w\<lparr>free_store := h', vectors := (vectors w)(i := v), alive := (alive w)(i := True)\<rparr>"
  have other: "valid (vectors w k) h' \<and> apart (vectors w k) v" if "alive w k" for k
  proof -
    from s that have "valid (vectors w k) (free_store w)" by (simp add: sound_def)
    from frame_other(1,3) [OF f this apart_default] show ?thesis by simp
  qed
  have 1: "valid (vectors ?w k) (free_store ?w)" if "alive ?w k" for k
    using that other [of k] v by (cases "k = i") simp_all
  have 2: "apart (vectors ?w k) (vectors ?w l)" if "alive ?w k \<and> alive ?w l \<and> k \<noteq> l" for k l
  proof (cases "k = i")
    case True
    with that other [of l] show ?thesis by (simp add: apart_sym)
  next
    case False
    show ?thesis
    proof (cases "l = i")
      case True
      with that False other [of k] show ?thesis by simp
    next
      case no: False
      with s that False show ?thesis by (simp add: sound_def)
    qed
  qed
  show ?thesis unfolding sound_def using 1 2 by blast
qed

lemma sound_destroy:
  assumes s: "sound w" and i: "alive w i"
  shows "sound (w\<lparr>free_store := released (raw_ptr_m (items_m (vectors w i))) (free_store w),
                  alive := (alive w)(i := False)\<rparr>)"
proof -
  from s i have vi: "valid (vectors w i) (free_store w)" by (simp add: sound_def)
  have "valid (vectors w k) (released (raw_ptr_m (items_m (vectors w i))) (free_store w))"
    if "alive w k" "k \<noteq> i" for k
  proof -
    from s that i have "valid (vectors w k) (free_store w)" "apart (vectors w k) (vectors w i)"
      by (simp_all add: sound_def)
    from valid_released_other [OF this(1) vi this(2)] show ?thesis .
  qed
  with s show ?thesis by (simp add: sound_def)
qed

lemma sound_move:
  assumes s: "sound w" and i: "\<not> alive w i" and j: "alive w j"
  shows "sound (w\<lparr>vectors := (vectors w)
                    (j := \<lparr>size_m = 0, capacity_m = 0, items_m = ArrayPtr nullptr\<rparr>,
                     i := vectors w j),
                  alive := (alive w)(i := True)\<rparr>)"
proof -
  from i j have ne: "i \<noteq> j" by auto
  have 1: "valid (vectors w k) (free_store w)" if "alive w k" for k
    using s that by (simp add: sound_def)
  have 2: "apart (vectors w k) (vectors w l)" if "alive w k" "alive w l" "k \<noteq> l" for k l
    using s that by (simp add: sound_def)
  show ?thesis
    unfolding sound_def using ne j 1 2 by (auto simp: fun_upd_def)
qed

lemma sound_swap:
  assumes s: "sound w" and i: "alive w i" and j: "alive w j"
  shows "sound (w\<lparr>vectors := (vectors w)(i := vectors w j, j := vectors w i)\<rparr>)"
proof -
  have 1: "valid (vectors w k) (free_store w)" if "alive w k" for k
    using s that by (simp add: sound_def)
  have 2: "apart (vectors w k) (vectors w l)" if "alive w k" "alive w l" "k \<noteq> l" for k l
    using s that by (simp add: sound_def)
  show ?thesis
    unfolding sound_def using i j 1 2 by (auto simp: fun_upd_def)
qed

lemma sound_move_assign:
  assumes s: "sound w" and i: "alive w i" and j: "alive w j" and ne: "i \<noteq> j"
  shows "sound (w\<lparr>free_store := released (raw_ptr_m (items_m (vectors w i))) (free_store w),
                  vectors := (vectors w)
                    (i := vectors w j,
                     j := \<lparr>size_m = 0, capacity_m = 0, items_m = ArrayPtr nullptr\<rparr>)\<rparr>)"
proof -
  let ?h = "released (raw_ptr_m (items_m (vectors w i))) (free_store w)"
  from s i have vi: "valid (vectors w i) (free_store w)" by (simp add: sound_def)
  have 1: "valid (vectors w k) ?h" if "alive w k" "k \<noteq> i" for k
  proof -
    from s that i have "valid (vectors w k) (free_store w)" "apart (vectors w k) (vectors w i)"
      by (simp_all add: sound_def)
    from valid_released_other [OF this(1) vi this(2)] show ?thesis .
  qed
  have 2: "apart (vectors w k) (vectors w l)" if "alive w k" "alive w l" "k \<noteq> l" for k l
    using s that by (simp add: sound_def)
  show ?thesis
    unfolding sound_def using i j ne 1 2 by (auto simp: fun_upd_def)
qed

lemma caught_Some: "caught e w = Some w' \<longleftrightarrow> (e = bad_alloc \<or> e = out_of_range) \<and> w' = w"
  by (auto simp: caught_def)

lemma harmless_Inl:
  "harmless s m \<Longrightarrow> m = Inl (e, s') \<Longrightarrow> e = bad_alloc \<or> e = out_of_range \<Longrightarrow> s' = s"
  by (auto simp: harmless_def)

lemma sound_same:
  "sound w \<Longrightarrow> sound (w\<lparr>free_store := free_store w\<rparr>)"
  "sound w \<Longrightarrow> sound (w\<lparr>free_store := free_store w, vectors := vectors w\<rparr>)"
  "sound w \<Longrightarrow> sound (w\<lparr>free_store := free_store w, vectors := (vectors w)(i := vectors w i)\<rparr>)"
  by (simp_all add: sound_def)

lemma call_sound:
  assumes s: "sound w" and c: "call c w = Some w'"
  shows "sound w'"
proof (cases c)
  case (Declare i k)
  with c have i: "\<not> alive w i" by (auto split: if_splits)
  show ?thesis
  proof (cases "construct k (free_store w)")
    case (Inl f)
    obtain e h where f: "f = (e, h)" by (cases f)
    from c Declare i Inl f have e: "e = bad_alloc \<or> e = out_of_range"
      and w': "w' = w\<lparr>free_store := h\<rparr>" by (auto simp: caught_Some)
    from harmless_Inl [OF harmless_construct Inl [unfolded f] e] have "h = free_store w" .
    with s w' show ?thesis by (simp add: sound_same)
  next
    case (Inr r)
    obtain v h where r: "r = (v, h)" by (cases r)
    from c Declare i Inr r
    have w': "w' = w\<lparr>free_store := h, vectors := (vectors w)(i := v),
        alive := (alive w)(i := True)\<rparr>" by simp
    from construct_Inr [OF Inr [unfolded r]] sound_new [OF s i] show ?thesis
      unfolding w' by blast
  qed
next
  case (Declare_copy i j)
  with c have i: "\<not> alive w i" and j: "alive w j" by (auto split: if_splits)
  from s j have vj: "valid (vectors w j) (free_store w)" by (simp add: sound_def)
  show ?thesis
  proof (cases "SimpleVector_copy (vectors w j) (free_store w)")
    case (Inl f)
    obtain e h where f: "f = (e, h)" by (cases f)
    from c Declare_copy i j Inl f have e: "e = bad_alloc \<or> e = out_of_range"
      and w': "w' = w\<lparr>free_store := h\<rparr>" by (auto simp: caught_Some)
    from harmless_Inl [OF harmless_copy Inl [unfolded f] e] have "h = free_store w" .
    with s w' show ?thesis by (simp add: sound_same)
  next
    case (Inr r)
    obtain v h where r: "r = (v, h)" by (cases r)
    from c Declare_copy i j Inr r
    have w': "w' = w\<lparr>free_store := h, vectors := (vectors w)(i := v),
        alive := (alive w)(i := True)\<rparr>" by simp
    from SimpleVector_copy_Inr(1,5) [OF vj Inr [unfolded r]] sound_new [OF s i] show ?thesis
      unfolding w' by blast
  qed
next
  case (Declare_move i j)
  with c have i: "\<not> alive w i" and j: "alive w j" by (auto split: if_splits)
  from c Declare_move i j
  have "w' = w\<lparr>vectors := (vectors w)
      (j := \<lparr>size_m = 0, capacity_m = 0, items_m = ArrayPtr nullptr\<rparr>, i := vectors w j),
      alive := (alive w)(i := True)\<rparr>"
    by (simp add: SimpleVector_move_eq)
  with sound_move [OF s i j] show ?thesis by simp
next
  case (Leave_scope i)
  with c have i: "alive w i" by (auto split: if_splits)
  from s i have "valid (vectors w i) (free_store w)" by (simp add: sound_def)
  from c Leave_scope i SimpleVector_destroy_Inr [OF this]
  have "w' = w\<lparr>free_store := released (raw_ptr_m (items_m (vectors w i))) (free_store w),
      alive := (alive w)(i := False)\<rparr>" by simp
  with sound_destroy [OF s i] show ?thesis by simp
next
  case (Change i m)
  with c have i: "alive w i" by (auto split: if_splits)
  from s i have vi: "valid (vectors w i) (free_store w)" by (simp add: sound_def)
  show ?thesis
  proof (cases "mutate m (vectors w i) (free_store w)")
    case (Inl f)
    obtain e v h where f: "f = (e, v, h)" by (cases f)
    from c Change i Inl f have e: "e = bad_alloc \<or> e = out_of_range"
      and w': "w' = w\<lparr>free_store := h, vectors := (vectors w)(i := v)\<rparr>"
      by (auto simp: caught_Some)
    from harmless_Inl [OF harmless_mutate Inl [unfolded f] e]
    have "v = vectors w i" "h = free_store w" by simp_all
    with s w' show ?thesis by (simp add: sound_same)
  next
    case (Inr r)
    obtain v h where r: "r = (v, h)" by (cases r)
    from c Change i Inr r
    have w': "w' = w\<lparr>free_store := h, vectors := (vectors w)(i := v)\<rparr>" by simp
    from mutate_Inr [OF vi Inr [unfolded r]] sound_frame [OF s i] show ?thesis
      unfolding w' by blast
  qed
next
  case (Swap_with i j)
  with c have i: "alive w i" and j: "alive w j" by (auto split: if_splits)
  from c Swap_with i j
  have "w' = w\<lparr>vectors := (vectors w)(i := vectors w j, j := vectors w i)\<rparr>"
    by (simp add: SimpleVector_swap_eq)
  with sound_swap [OF s i j] show ?thesis by simp
next
  case (Assign i j)
  with c have i: "alive w i" and j: "alive w j" by (auto split: if_splits)
  from s i j have vi: "valid (vectors w i) (free_store w)"
    and vj: "valid (vectors w j) (free_store w)" by (simp_all add: sound_def)
  show ?thesis
  proof (cases "copy_assign i j (vectors w) (free_store w)")
    case (Inl f)
    obtain e V h where f: "f = (e, V, h)" by (cases f)
    from c Assign i j Inl f have e: "e = bad_alloc \<or> e = out_of_range"
      and w': "w' = w\<lparr>free_store := h, vectors := V\<rparr>"
      by (auto simp: caught_Some)
    from harmless_Inl [OF harmless_copy_assign Inl [unfolded f] e]
    have "V = vectors w" "h = free_store w" by simp_all
    with s w' show ?thesis by (simp add: sound_same)
  next
    case (Inr r)
    obtain V h where r: "r = (V, h)" by (cases r)
    from c Assign i j Inr r have w': "w' = w\<lparr>free_store := h, vectors := V\<rparr>" by simp
    show ?thesis
    proof (cases "i = j")
      case True
      with Inr r have "V = vectors w" "h = free_store w" by (simp_all add: copy_assign_def)
      with s w' show ?thesis by (simp add: sound_same)
    next
      case False
      note a = copy_assign_Inr [of i j "vectors w" "free_store w", OF False vi vj Inr [unfolded r]]
      from a(1) have "V = (vectors w)(i := V i)" by (auto simp: fun_eq_iff)
      with w' have "w' = w\<lparr>free_store := h, vectors := (vectors w)(i := V i)\<rparr>" by simp
      with sound_frame [OF s i a(3) a(2)] show ?thesis by simp
    qed
  qed
next
  case (Assign_move i j)
  with c have i: "alive w i" and j: "alive w j" by (auto split: if_splits)
  from s i have vi: "valid (vectors w i) (free_store w)" by (simp add: sound_def)
  show ?thesis
  proof (cases "i = j")
    case True
    with c Assign_move i have "w' = w\<lparr>free_store := free_store w, vectors := vectors w\<rparr>"
      by (simp add: move_assign_def)
    with s show ?thesis by (simp add: sound_same)
  next
    case False
    from c Assign_move i j move_assign_distinct [of i j "vectors w" "free_store w", OF False vi]
    have "w' = w\<lparr>free_store := released (raw_ptr_m (items_m (vectors w i))) (free_store w),
        vectors := (vectors w)
          (i := vectors w j,
           j := \<lparr>size_m = 0, capacity_m = 0, items_m = ArrayPtr nullptr\<rparr>)\<rparr>"
      by simp
    with sound_move_assign [OF s i j False] show ?thesis by simp
  qed
qed

lemma run_sound: "sound w \<Longrightarrow> run cs w = Some w' \<Longrightarrow> sound w'"
proof (induction cs arbitrary: w)
  case Nil
  then show ?case by simp
next
  case (Cons c cs)
  from Cons.prems(2) obtain w1 where w1: "call c w = Some w1" "run cs w1 = Some w'"
    by (auto split: option.splits)
  from call_sound [OF Cons.prems(1) w1(1)] w1(2) show ?case by (rule Cons.IH)
qed

lemma sound_size: "sound w \<Longrightarrow> alive w i \<Longrightarrow> GetSize (vectors w i) \<le> GetCapacity (vectors w i)"
  by (simp add: sound_def valid_def GetSize_def GetCapacity_def)

text \<open>The argument is an element of the vector itself.\<close>

lemma EmplaceBack_full_own:
  assumes v: "valid v h" and full: "size_m v = capacity_m v"
    and al: "can_alloc (if capacity_m v = 0 then 1 else capacity_m v * 2) h"
    and own: "items_m v = ArrayPtr (Ptr a 0)"
  shows "EmplaceBack (Stored (Ptr a j)) v h =
     Inl (undefined_behaviour,
          v\<lparr>items_m := ArrayPtr (Ptr (length (blocks h)) 0),
            capacity_m := (if capacity_m v = 0 then 1 else capacity_m v * 2)\<rparr>,
          grown v (if capacity_m v = 0 then 1 else capacity_m v * 2)
            (map (\<lambda>k. if k < unat (size_m v) then buffer v h ! k else fresh h k)
               [0..<unat (if capacity_m v = 0 then 1 else capacity_m v * 2)]) h)"
proof -
  define nc where "nc = (if capacity_m v = 0 then 1 else capacity_m v * 2)"
  define nb where "nb = map (\<lambda>k. if k < unat (size_m v) then buffer v h ! k else fresh h k) [0..<unat nc]"
  let ?d = "length (blocks h)"
  note nc = new_capacity [OF v, folded nc_def]
  have ge: "capacity_m v \<le> size_m v" using full by simp
  have sz: "unat (size_m v) < unat nc"
    using nc(3) full by (simp add: word_less_nat_alt)
  then have sz': "unat (size_m v) \<le> unat nc" by simp
  from valid_block(3) [OF v own] have "a \<noteq> ?d" by simp
  with own have g: "block_at a (grown v nc nb h) = None"
    using v by (simp add: block_at_grown)
  have rd: "read_ref (Stored (Ptr a j)) (grown v nc nb h) =
      Inl (undefined_behaviour, grown v nc nb h)"
    by (simp add: read_ref_def deref_def g)
  have "EmplaceBack (Stored (Ptr a j)) v h =
     Inl (undefined_behaviour,
          v\<lparr>items_m := ArrayPtr (Ptr ?d 0), capacity_m := nc\<rparr>, grown v nc nb h)"
    unfolding EmplaceBack_def nc_def [symmetric] Let_def
    using ge al
    by (simp add: nc_def [symmetric] ArrayPtr_sized_ok [OF _ nc(2)]
        relocate_fresh [OF v order_refl sz', folded nb_def] destroy_grown [OF v] rd in_this_def)
  then show ?thesis by (simp add: nc_def nb_def)
qed

lemma Emplace_room_own:
  assumes v: "valid v h" and lt: "size_m v < capacity_m v" and k: "k \<le> size_m v"
    and p: "ptr_add (begin_it v) k h = Inr pos"
    and own: "items_m v = ArrayPtr (Ptr a 0)" and j: "j < unat (capacity_m v)"
  shows "Emplace pos (Stored (Ptr a j)) v h =
     Emplace pos
       (Local (if unat k < j \<and> j \<le> unat (size_m v) then buffer v h ! (j - 1)
               else buffer v h ! j)) v h"
proof -
  let ?b = "buffer v h"
  let ?b1 = "map (\<lambda>j. if unat k < j \<and> j \<le> unat (size_m v) then ?b ! (j - 1) else ?b ! j)
      [0..<length ?b]"
  note blk = valid_block(1,2) [OF v own]
  have s: "unat (size_m v) < length ?b" using lt blk(2) by (simp add: word_less_nat_alt)
  have l1: "for_down (size_m v) k (\<lambda>j. move_elem (ArrayPtr (Ptr a 0)) j (ArrayPtr (Ptr a 0)) (j - 1)) h
      = Inr (set_block a ?b1 h)"
    by (rule shift_right_loop [OF blk(1) k s])
  have b1: "block_at a (set_block a ?b1 h) = Some ?b1"
    using block_at_live [OF blk(1)] by (simp add: block_at_set_block)
  have rd: "read_ref (Stored (Ptr a j)) (set_block a ?b1 h) =
      Inr (if unat k < j \<and> j \<le> unat (size_m v) then ?b ! (j - 1) else ?b ! j)"
  proof -
    have jl: "j < length ?b" using j blk(2) by simp
    have "deref (Ptr a j) (set_block a ?b1 h) = Inr (?b1 ! j)"
      by (rule deref_block [OF b1]) (use jl in simp)
    also have "?b1 ! j = (if unat k < j \<and> j \<le> unat (size_m v) then ?b ! (j - 1) else ?b ! j)"
      using jl by simp
    finally show ?thesis by (simp add: read_ref_def)
  qed
  have nle: "\<not> capacity_m v \<le> size_m v" using lt by simp
  have pd: "ptr_diff pos (Ptr a 0) h = Inr k"
    using position [OF v size_le_capacity [OF v k] p, of h] own by (simp add: begin_it_def Get_def)
  show ?thesis
    using nle own by (simp add: Emplace_def begin_it_def Get_def pd l1 rd)
qed

section \<open>PushBack and EmplaceBack\<close>

text \<open>
  C1 has \<^verbatim>\<open>PushBack\<close> and \<^verbatim>\<open>EmplaceBack\<close> append their argument to every vector, for every
  value. The code does not, when the vector is full and the argument is one of its own
  elements, as in \<^verbatim>\<open>v.PushBack(v[0])\<close>: \<^verbatim>\<open>EmplaceBack\<close> reads its parameter after the
  \<^verbatim>\<open>if\<close> block that grows the buffer, and by then the block the parameter refers to has
  been deleted. For every valid full vector that owns its block \<open>a\<close>, with memory for the
  growth, and every index \<open>j\<close> below the size, the element at \<open>j\<close> can be read before the
  call, and the call with a reference to it has undefined behaviour, in a state where the
  vector has its new buffer and the block \<open>a\<close> is gone; nothing is appended.
\<close>

theorem PushBack_own_element:
  "valid v h \<and> size_m v = capacity_m v \<and> items_m v = ArrayPtr (Ptr a 0) \<and>
   can_alloc (if capacity_m v = 0 then 1 else capacity_m v * 2) h \<and> j < unat (size_m v) \<longrightarrow>
     deref (Ptr a j) h = Inr (elements v h ! j) \<and>
     (\<exists>v' h'. EmplaceBack (Stored (Ptr a j)) v h = Inl (undefined_behaviour, v', h') \<and>
        PushBack (Stored (Ptr a j)) v h = Inl (undefined_behaviour, v', h') \<and>
        block_at a h' = None \<and> items_m v' = ArrayPtr (Ptr (length (blocks h)) 0))"
proof
  assume a: "valid v h \<and> size_m v = capacity_m v \<and> items_m v = ArrayPtr (Ptr a 0) \<and>
    can_alloc (if capacity_m v = 0 then 1 else capacity_m v * 2) h \<and> j < unat (size_m v)"
  then have v: "valid v h" and full: "size_m v = capacity_m v"
    and own: "items_m v = ArrayPtr (Ptr a 0)"
    and al: "can_alloc (if capacity_m v = 0 then 1 else capacity_m v * 2) h"
    and j: "j < unat (size_m v)" by blast+
  let ?nc = "if capacity_m v = 0 then 1 else capacity_m v * 2"
  let ?nb = "map (\<lambda>k. if k < unat (size_m v) then buffer v h ! k else fresh h k) [0..<unat ?nc]"
  note blk = valid_block [OF v own]
  have jl: "j < length (buffer v h)" using j blk(2) unfolding full by simp
  have 1: "deref (Ptr a j) h = Inr (elements v h ! j)"
    using deref_block [OF blk(1) jl] j by (simp add: elements_buffer [OF v])
  have g: "block_at a (grown v ?nc ?nb h) = None"
    using blk(3) own by (simp add: block_at_grown [OF v])
  note e = EmplaceBack_full_own [OF v full al own, of j]
  from e have "PushBack (Stored (Ptr a j)) v h =
      Inl (undefined_behaviour,
           v\<lparr>items_m := ArrayPtr (Ptr (length (blocks h)) 0), capacity_m := ?nc\<rparr>,
           grown v ?nc ?nb h)"
    by (simp add: PushBack_def)
  with e g have "\<exists>v' h'. EmplaceBack (Stored (Ptr a j)) v h = Inl (undefined_behaviour, v', h') \<and>
        PushBack (Stored (Ptr a j)) v h = Inl (undefined_behaviour, v', h') \<and>
        block_at a h' = None \<and> items_m v' = ArrayPtr (Ptr (length (blocks h)) 0)"
    by simp
  with 1 show "deref (Ptr a j) h = Inr (elements v h ! j) \<and>
     (\<exists>v' h'. EmplaceBack (Stored (Ptr a j)) v h = Inl (undefined_behaviour, v', h') \<and>
        PushBack (Stored (Ptr a j)) v h = Inl (undefined_behaviour, v', h') \<and>
        block_at a h' = None \<and> items_m v' = ArrayPtr (Ptr (length (blocks h)) 0))" ..
qed

theorem PushBack_own_element_witness:
  "SimpleVector_init [1, 2, 3] \<lparr>blocks = [], avail = 100, fresh = (\<lambda>k. 0::int)\<rparr> =
     Inr (\<lparr>size_m = 3, capacity_m = 3, items_m = ArrayPtr (Ptr 0 0)\<rparr>,
          \<lparr>blocks = [Some [1, 2, 3]], avail = 97, fresh = (\<lambda>k. 0)\<rparr>) \<and>
   valid \<lparr>size_m = 3, capacity_m = 3, items_m = ArrayPtr (Ptr 0 0)\<rparr>
     \<lparr>blocks = [Some [1, 2, 3::int]], avail = 97, fresh = (\<lambda>k. 0)\<rparr> \<and>
   can_alloc (3 * 2) \<lparr>blocks = [Some [1, 2, 3::int]], avail = 97, fresh = (\<lambda>k. 0)\<rparr> \<and>
   deref (Ptr 0 0) \<lparr>blocks = [Some [1, 2, 3::int]], avail = 97, fresh = (\<lambda>k. 0)\<rparr> = Inr 1 \<and>
   PushBack (Stored (Ptr 0 0)) \<lparr>size_m = 3, capacity_m = 3, items_m = ArrayPtr (Ptr 0 0)\<rparr>
     \<lparr>blocks = [Some [1, 2, 3::int]], avail = 97, fresh = (\<lambda>k. 0)\<rparr> =
     Inl (undefined_behaviour, \<lparr>size_m = 3, capacity_m = 6, items_m = ArrayPtr (Ptr 1 0)\<rparr>,
          \<lparr>blocks = [None, Some [1, 2, 3, 0, 0, 0]], avail = 94, fresh = (\<lambda>k. 0)\<rparr>) \<and>
   (\<exists>v' h'. EmplaceBack (Stored (Ptr 0 0))
        \<lparr>size_m = 3, capacity_m = 3, items_m = ArrayPtr (Ptr 0 0)\<rparr>
        \<lparr>blocks = [Some [1, 2, 3::int]], avail = 97, fresh = (\<lambda>k. 0)\<rparr> =
        Inl (undefined_behaviour, v', h') \<and>
      block_at 0 h' = None \<and> items_m v' = ArrayPtr (Ptr 1 0))"
proof -
  let ?v = "\<lparr>size_m = 3, capacity_m = 3, items_m = ArrayPtr (Ptr 0 0)\<rparr>"
  let ?h = "\<lparr>blocks = [Some [1, 2, 3::int]], avail = 97, fresh = (\<lambda>k. 0)\<rparr>"
  note ev = ArrayPtr_sized_def new_array_def max_array_def ArrayPtr_destroy_def
    delete_array_def put_def ArrayPtr_index_def subscript_def block_at_def assign_to_def
    for_up.simps move_elem_def deref_def Let_def upt_conv_Cons
  have i: "SimpleVector_init [1, 2, 3] \<lparr>blocks = [], avail = 100, fresh = (\<lambda>k. 0::int)\<rparr> =
      Inr (?v, ?h)"
    by (simp add: SimpleVector_init_def ev)
  have v: "valid ?v ?h" by (simp add: valid_def block_at_def max_array_def)
  have c: "can_alloc (3 * 2) ?h" by (simp add: can_alloc_def max_array_def)
  have d: "deref (Ptr 0 0) ?h = Inr 1" by (simp add: deref_def block_at_def)
  have p: "PushBack (Stored (Ptr 0 0)) ?v ?h =
     Inl (undefined_behaviour, \<lparr>size_m = 3, capacity_m = 6, items_m = ArrayPtr (Ptr 1 0)\<rparr>,
          \<lparr>blocks = [None, Some [1, 2, 3, 0, 0, 0]], avail = 94, fresh = (\<lambda>k. 0)\<rparr>)"
    by (simp add: PushBack_def EmplaceBack_def read_ref_def in_this_def ev)
  from PushBack_own_element [of ?v ?h 0 0] v c
  have "\<exists>v' h'. EmplaceBack (Stored (Ptr 0 0)) ?v ?h = Inl (undefined_behaviour, v', h') \<and>
      block_at 0 h' = None \<and> items_m v' = ArrayPtr (Ptr 1 0)"
    by simp blast
  with i v c d p show ?thesis by simp
qed

text \<open>
  With an argument outside the free store the calls do what C1 says. On a valid vector
  with room, or when the new block can be allocated, \<^verbatim>\<open>EmplaceBack\<close> (and \<^verbatim>\<open>PushBack\<close>,
  which calls it) returns normally: the elements are the old ones followed by the new one,
  the size is one more, the reference returned designates the new element, and the
  capacity is unchanged when there was room, 1 when it was 0, and twice what it was
  otherwise (without wrap-around). After the pushes of a list \<open>xs\<close> of such arguments on a
  default-constructed vector, with memory for them, the size is the length of \<open>xs\<close>, the
  elements are \<open>xs\<close>, and the capacity is 0 for no push and else the power of two \<open>c\<close> with
  \<open>length xs \<le> c < 2 * length xs\<close>: the sequence 0, 1, 2, 4, 8, ... and never less than
  the size.
\<close>

lemma PushBack_local:
  "(valid v h \<and>
    (size_m v < capacity_m v \<or> can_alloc (if capacity_m v = 0 then 1 else capacity_m v * 2) h) \<longrightarrow>
      (\<exists>r v' h'. EmplaceBack (Local x) v h = Inr (r, v', h') \<and> PushBack (Local x) v h = Inr (v', h') \<and>
         valid v' h' \<and> elements v' h' = elements v h @ [x] \<and> deref r h' = Inr x \<and>
         unat (GetSize v') = unat (GetSize v) + 1 \<and>
         unat (GetCapacity v') =
           (if size_m v < capacity_m v then unat (GetCapacity v)
            else if capacity_m v = 0 then 1 else 2 * unat (GetCapacity v)))) \<and>
   (3 * length xs \<le> avail h \<and> 2 * length xs \<le> max_array \<longrightarrow>
      (\<exists>v' h'. push_all xs SimpleVector_default h = Inr (v', h') \<and> valid v' h' \<and>
         elements v' h' = xs \<and> unat (GetSize v') = length xs \<and>
         length xs \<le> unat (GetCapacity v') \<and>
         ((xs = [] \<and> GetCapacity v' = 0) \<or>
          (\<exists>k. unat (GetCapacity v') = 2 ^ k \<and> 2 ^ k < 2 * length xs))))"
proof (intro conjI impI)
  assume a: "valid v h \<and>
    (size_m v < capacity_m v \<or> can_alloc (if capacity_m v = 0 then 1 else capacity_m v * 2) h)"
  then have v: "valid v h" by simp
  from a EmplaceBack_total [OF v] obtain r v' h' where e: "EmplaceBack (Local x) v h = Inr (r, v', h')"
    by blast
  note s = EmplaceBack_Inr [OF v e]
  note nc = new_capacity(1) [OF v]
  have "unat (capacity_m v') =
           (if size_m v < capacity_m v then unat (capacity_m v)
            else if capacity_m v = 0 then 1 else 2 * unat (capacity_m v))"
    using s(4) nc by simp
  with e s show "\<exists>r v' h'. EmplaceBack (Local x) v h = Inr (r, v', h') \<and> PushBack (Local x) v h = Inr (v', h') \<and>
         valid v' h' \<and> elements v' h' = elements v h @ [x] \<and> deref r h' = Inr x \<and>
         unat (GetSize v') = unat (GetSize v) + 1 \<and>
         unat (GetCapacity v') =
           (if size_m v < capacity_m v then unat (GetCapacity v)
            else if capacity_m v = 0 then 1 else 2 * unat (GetCapacity v))"
    by (simp add: PushBack_def GetSize_def GetCapacity_def)
next
  assume m: "3 * length xs \<le> avail h \<and> 2 * length xs \<le> max_array"
  have d0: "doubling (unat (capacity_m SimpleVector_default)) (unat (size_m SimpleVector_default))"
    by (simp add: doubling_def)
  from m push_all_total [of SimpleVector_default h xs]
  obtain v' h' where p: "push_all xs SimpleVector_default h = Inr (v', h')" by auto
  from push_all_Inr [OF valid_default d0 p]
  have r: "valid v' h'" "doubling (unat (capacity_m v')) (unat (size_m v'))"
    "elements v' h' = xs" "unat (size_m v') = length xs" by auto
  from r(2,4) have "(xs = [] \<and> capacity_m v' = 0) \<or>
      (\<exists>k. unat (capacity_m v') = 2 ^ k \<and> 2 ^ k < 2 * length xs)"
    by (auto simp: doubling_def unat_eq_0)
  moreover have "length xs \<le> unat (capacity_m v')"
    using valid_size [OF r(1)] r(4) by simp
  ultimately show "\<exists>v' h'. push_all xs SimpleVector_default h = Inr (v', h') \<and> valid v' h' \<and>
         elements v' h' = xs \<and> unat (GetSize v') = length xs \<and>
         length xs \<le> unat (GetCapacity v') \<and>
         ((xs = [] \<and> GetCapacity v' = 0) \<or>
          (\<exists>k. unat (GetCapacity v') = 2 ^ k \<and> 2 ^ k < 2 * length xs))"
    using p r by (simp add: GetSize_def GetCapacity_def)
qed

lemma PushBack_local_example:
  "valid SimpleVector_default \<lparr>blocks = [], avail = 100, fresh = (\<lambda>k. 7::int)\<rparr> \<and>
   can_alloc 1 \<lparr>blocks = [], avail = 100, fresh = (\<lambda>k. 7::int)\<rparr> \<and>
   3 * length [1, 2, 3::int] \<le> avail \<lparr>blocks = [], avail = 100, fresh = (\<lambda>k. 7::int)\<rparr> \<and>
   2 * length [1, 2, 3::int] \<le> max_array \<and>
   (\<exists>r v' h'. EmplaceBack (Local 5) SimpleVector_default
        \<lparr>blocks = [], avail = 100, fresh = (\<lambda>k. 7::int)\<rparr> = Inr (r, v', h') \<and>
      elements v' h' = [5] \<and> deref r h' = Inr 5 \<and> unat (GetSize v') = 1 \<and>
      unat (GetCapacity v') = 1) \<and>
   (\<exists>v' h'. push_all [1, 2, 3] SimpleVector_default
        \<lparr>blocks = [], avail = 100, fresh = (\<lambda>k. 7::int)\<rparr> = Inr (v', h') \<and>
      elements v' h' = [1, 2, 3] \<and> unat (GetSize v') = 3 \<and> 3 \<le> unat (GetCapacity v') \<and>
      (\<exists>k. unat (GetCapacity v') = 2 ^ k \<and> 2 ^ k < (6::nat))) \<and>
   push_all [1, 2, 3] SimpleVector_default \<lparr>blocks = [], avail = 100, fresh = (\<lambda>k. 7::int)\<rparr> =
     Inr (\<lparr>size_m = 3, capacity_m = 4, items_m = ArrayPtr (Ptr 2 0)\<rparr>,
          \<lparr>blocks = [None, None, Some [1, 2, 3, 7]], avail = 96, fresh = (\<lambda>k. 7)\<rparr>)"
proof -
  let ?h = "\<lparr>blocks = [], avail = 100, fresh = (\<lambda>k. 7::int)\<rparr>"
  have c: "can_alloc 1 ?h" "2 * length [1, 2, 3::int] \<le> max_array"
    by (simp_all add: can_alloc_def max_array_def)
  have e: "push_all [1, 2, 3] SimpleVector_default ?h =
     Inr (\<lparr>size_m = 3, capacity_m = 4, items_m = ArrayPtr (Ptr 2 0)\<rparr>,
          \<lparr>blocks = [None, None, Some [1, 2, 3, 7]], avail = 96, fresh = (\<lambda>k. 7)\<rparr>)"
    by (simp add: PushBack_def EmplaceBack_def ArrayPtr_sized_def new_array_def max_array_def
        ArrayPtr_destroy_def delete_array_def put_def ArrayPtr_index_def subscript_def
        block_at_def assign_to_def for_up.simps move_elem_def deref_def Let_def upt_conv_Cons)
  note t = PushBack_local [of SimpleVector_default ?h 5 "[1, 2, 3]"]
  from t c have 1: "\<exists>r v' h'. EmplaceBack (Local 5) SimpleVector_default ?h = Inr (r, v', h') \<and>
      elements v' h' = [5] \<and> deref r h' = Inr 5 \<and> unat (GetSize v') = 1 \<and>
      unat (GetCapacity v') = 1"
    by (auto simp: GetSize_def)
  from t c have 2: "\<exists>v' h'. push_all [1, 2, 3] SimpleVector_default ?h = Inr (v', h') \<and>
      elements v' h' = [1, 2, 3] \<and> unat (GetSize v') = 3 \<and> 3 \<le> unat (GetCapacity v') \<and>
      (\<exists>k. unat (GetCapacity v') = 2 ^ k \<and> 2 ^ k < (6::nat))"
    by (auto simp del: push_all.simps)
  from c 1 2 e show ?thesis
    by (simp del: push_all.simps)
qed

section \<open>PopBack\<close>

text \<open>
  C8. \<^verbatim>\<open>PopBack\<close> is \<^verbatim>\<open>noexcept\<close> and touches nothing but \<^verbatim>\<open>size_\<close>: it returns the
  vector, never an error, and the free store is not an argument of it. On a vector of
  positive size the size goes down by one; on an empty vector nothing changes. The
  capacity and the buffer are the same, and the elements of a valid vector are the old
  ones without the last.
\<close>

theorem PopBack_spec:
  "(0 < size_m v \<longrightarrow> unat (size_m (PopBack v)) = unat (size_m v) - 1 \<and>
                      size_m (PopBack v) + 1 = size_m v) \<and>
   (size_m v = 0 \<longrightarrow> PopBack v = v) \<and>
   capacity_m (PopBack v) = capacity_m v \<and>
   items_m (PopBack v) = items_m v \<and>
   (valid v h \<longrightarrow> valid (PopBack v) h \<and> elements (PopBack v) h = butlast (elements v h))"
proof -
  have 1: "0 < size_m v \<Longrightarrow> unat (size_m v - 1) = unat (size_m v) - 1"
    using word_gr_pred [of 0 "size_m v"] by simp
  have 2: "valid v h \<Longrightarrow> valid (PopBack v) h"
    by (auto simp: valid_def PopBack_def word_le_nat_alt 1 split: pointer.splits option.splits)
  have 3: "elements (PopBack v) h = butlast (elements v h)" if v: "valid v h"
  proof (cases "0 < size_m v")
    case True
    have "unat (size_m v) \<le> length (buffer v h)"
      using v by (cases rule: valid_cases) (simp_all add: word_le_nat_alt)
    then show ?thesis
      using True v 2 [OF v]
      by (simp add: elements_buffer butlast_take) (simp add: PopBack_def 1 buffer_def)
  next
    case False
    then have "size_m v = 0" by unat_arith
    then show ?thesis by (simp add: PopBack_def elements_def split: pointer.splits option.splits)
  qed
  show ?thesis
    using 1 2 3 by (simp add: PopBack_def)
qed

theorem PopBack_spec_witness:
  "valid \<lparr>size_m = 2, capacity_m = 2, items_m = ArrayPtr (Ptr 0 0)\<rparr>
     \<lparr>blocks = [Some [10, 20::int]], avail = 0, fresh = (\<lambda>k. 0)\<rparr> \<and>
   PopBack \<lparr>size_m = 2, capacity_m = 2, items_m = ArrayPtr (Ptr 0 0)\<rparr> =
     \<lparr>size_m = 1, capacity_m = 2, items_m = ArrayPtr (Ptr 0 0)\<rparr> \<and>
   elements (PopBack \<lparr>size_m = 2, capacity_m = 2, items_m = ArrayPtr (Ptr 0 0)\<rparr>)
     \<lparr>blocks = [Some [10, 20::int]], avail = 0, fresh = (\<lambda>k. 0)\<rparr> = [10] \<and>
   PopBack \<lparr>size_m = 0, capacity_m = 0, items_m = ArrayPtr nullptr\<rparr> =
     \<lparr>size_m = 0, capacity_m = 0, items_m = ArrayPtr nullptr\<rparr>"
proof -
  let ?v = "\<lparr>size_m = 2, capacity_m = 2, items_m = ArrayPtr (Ptr 0 0)\<rparr>"
  let ?h = "\<lparr>blocks = [Some [10, 20::int]], avail = 0, fresh = (\<lambda>k. 0)\<rparr>"
  have v: "valid ?v ?h"
    by (simp add: valid_def block_at_def max_array_def)
  have e: "elements ?v ?h = [10, 20]"
    by (simp add: elements_def block_at_def)
  have p: "PopBack ?v = \<lparr>size_m = 1, capacity_m = 2, items_m = ArrayPtr (Ptr 0 0)\<rparr>"
    by (simp add: PopBack_def)
  from PopBack_spec [of ?v ?h] v e have "elements (PopBack ?v) ?h = [10]" by simp
  moreover from PopBack_spec [of "\<lparr>size_m = 0, capacity_m = 0, items_m = ArrayPtr nullptr\<rparr>" ?h]
  have "PopBack \<lparr>size_m = 0, capacity_m = 0, items_m = ArrayPtr nullptr\<rparr> =
     \<lparr>size_m = 0, capacity_m = 0, items_m = ArrayPtr nullptr\<rparr>" by simp
  ultimately show ?thesis using v p by simp
qed

section \<open>At\<close>

text \<open>
  C5. \<^verbatim>\<open>At(i)\<close> throws \<^verbatim>\<open>std::out_of_range\<close> exactly when \<open>i\<close> is at least the size, and
  then the vector and the free store are what they were. On a valid vector and a smaller
  \<open>i\<close> it returns a reference to the element at position \<open>i\<close>. \<^verbatim>\<open>At\<close> returns a reference
  only: it does not change the vector or the free store.
\<close>

theorem At_spec:
  "((\<exists>s. At i v h = Inl (out_of_range, s)) \<longleftrightarrow> GetSize v \<le> i) \<and>
   (GetSize v \<le> i \<longrightarrow> At i v h = Inl (out_of_range, v, h)) \<and>
   (valid v h \<and> i < GetSize v \<longrightarrow>
      (\<exists>r. At i v h = Inr r \<and> deref r h = Inr (elements v h ! unat i)))"
proof (intro conjI impI)
  show "(\<exists>s. At i v h = Inl (out_of_range, s)) \<longleftrightarrow> GetSize v \<le> i"
  proof
    assume "\<exists>s. At i v h = Inl (out_of_range, s)"
    with At_not_out_of_range [of i v h] show "GetSize v \<le> i"
      by (auto simp: GetSize_def not_le [symmetric])
  next
    assume "GetSize v \<le> i"
    then show "\<exists>s. At i v h = Inl (out_of_range, s)"
      by (simp add: At_def GetSize_def)
  qed
next
  assume "GetSize v \<le> i"
  then show "At i v h = Inl (out_of_range, v, h)"
    by (simp add: At_def GetSize_def)
next
  assume "valid v h \<and> i < GetSize v"
  then have "valid v h" "i < size_m v" by (simp_all add: GetSize_def)
  then show "\<exists>r. At i v h = Inr r \<and> deref r h = Inr (elements v h ! unat i)"
    by (rule At_in_range) blast
qed

theorem At_spec_witness:
  "valid \<lparr>size_m = 2, capacity_m = 3, items_m = ArrayPtr (Ptr 0 0)\<rparr>
     \<lparr>blocks = [Some [10, 20, 30::int]], avail = 0, fresh = (\<lambda>k. 0)\<rparr> \<and>
   (1::size_t) < GetSize \<lparr>size_m = 2, capacity_m = 3, items_m = ArrayPtr (Ptr 0 0)\<rparr> \<and>
   GetSize \<lparr>size_m = 2, capacity_m = 3, items_m = ArrayPtr (Ptr 0 0)\<rparr> \<le> 2 \<and>
   (\<exists>r. At 1 \<lparr>size_m = 2, capacity_m = 3, items_m = ArrayPtr (Ptr 0 0)\<rparr>
        \<lparr>blocks = [Some [10, 20, 30::int]], avail = 0, fresh = (\<lambda>k. 0)\<rparr> = Inr r \<and>
      deref r \<lparr>blocks = [Some [10, 20, 30::int]], avail = 0, fresh = (\<lambda>k. 0)\<rparr> = Inr 20) \<and>
   At 2 \<lparr>size_m = 2, capacity_m = 3, items_m = ArrayPtr (Ptr 0 0)\<rparr>
     \<lparr>blocks = [Some [10, 20, 30::int]], avail = 0, fresh = (\<lambda>k. 0)\<rparr> =
     Inl (out_of_range, \<lparr>size_m = 2, capacity_m = 3, items_m = ArrayPtr (Ptr 0 0)\<rparr>,
          \<lparr>blocks = [Some [10, 20, 30::int]], avail = 0, fresh = (\<lambda>k. 0)\<rparr>)"
proof -
  let ?v = "\<lparr>size_m = 2, capacity_m = 3, items_m = ArrayPtr (Ptr 0 0)\<rparr>"
  let ?h = "\<lparr>blocks = [Some [10, 20, 30::int]], avail = 0, fresh = (\<lambda>k. 0)\<rparr>"
  have v: "valid ?v ?h" by (simp add: valid_def block_at_def max_array_def)
  have e: "elements ?v ?h = [10, 20]" by (simp add: elements_def block_at_def)
  from At_spec [of 1 ?v ?h] v e
  have 1: "\<exists>r. At 1 ?v ?h = Inr r \<and> deref r ?h = Inr 20" by (simp add: GetSize_def)
  from At_spec [of 2 ?v ?h]
  have 2: "At 2 ?v ?h = Inl (out_of_range, ?v, ?h)" by (simp add: GetSize_def)
  from v 1 2 show ?thesis by (simp add: GetSize_def)
qed

section \<open>Resize\<close>

text \<open>
  C4. \<^verbatim>\<open>Resize(n)\<close> by cases. When \<open>n\<close> is at most the size, only \<^verbatim>\<open>size_\<close> changes: the
  free store is untouched and the elements are the first \<open>n\<close> old ones. When \<open>n\<close> is above
  the size and at most the capacity, the vector keeps its buffer and capacity, and the
  elements are the old ones followed by \<open>n - size\<close> values \<^verbatim>\<open>Type()\<close>. When \<open>n\<close> is above the
  capacity and the allocation succeeds, the buffer is a new block of exactly \<open>n\<close> elements,
  the old block is deleted, size and capacity are \<open>n\<close>, and the elements are the old ones
  followed by values \<^verbatim>\<open>Type()\<close>. Shrinking a vector of size \<open>N\<close> to \<open>m\<close> and resizing it
  to \<open>N\<close> again gives the first \<open>m\<close> old elements followed by \<open>N - m\<close> values \<^verbatim>\<open>Type()\<close>.
\<close>

theorem Resize_spec:
  "(n \<le> size_m v \<longrightarrow>
      Resize T0 n v h = Inr (v\<lparr>size_m := n\<rparr>, h) \<and>
      (valid v h \<longrightarrow> valid (v\<lparr>size_m := n\<rparr>) h \<and>
         elements (v\<lparr>size_m := n\<rparr>) h = take (unat n) (elements v h))) \<and>
   (valid v h \<and> size_m v < n \<and> n \<le> capacity_m v \<longrightarrow>
      (\<exists>h'. Resize T0 n v h = Inr (v\<lparr>size_m := n\<rparr>, h') \<and> valid (v\<lparr>size_m := n\<rparr>) h' \<and>
         elements (v\<lparr>size_m := n\<rparr>) h' =
           elements v h @ replicate (unat n - unat (size_m v)) T0)) \<and>
   (valid v h \<and> capacity_m v < n \<and> can_alloc n h \<longrightarrow>
      (\<exists>v' h'. Resize T0 n v h = Inr (v', h') \<and> valid v' h' \<and>
         size_m v' = n \<and> capacity_m v' = n \<and> length (buffer v' h') = unat n \<and>
         items_m v' = ArrayPtr (Ptr (length (blocks h)) 0) \<and>
         block_at (length (blocks h)) h = None \<and>
         (\<forall>a. items_m v = ArrayPtr (Ptr a 0) \<longrightarrow> block_at a h' = None) \<and>
         elements v' h' = elements v h @ replicate (unat n - unat (size_m v)) T0)) \<and>
   (valid v h \<and> m \<le> size_m v \<longrightarrow>
      (\<exists>h2. Resize T0 m v h = Inr (v\<lparr>size_m := m\<rparr>, h) \<and>
         Resize T0 (size_m v) (v\<lparr>size_m := m\<rparr>) h = Inr (v, h2) \<and> valid v h2 \<and>
         elements v h2 =
           take (unat m) (elements v h) @ replicate (unat (size_m v) - unat m) T0))"
proof (intro conjI impI)
  assume "n \<le> size_m v"
  then show "Resize T0 n v h = Inr (v\<lparr>size_m := n\<rparr>, h)" by (rule Resize_shrink)
next
  assume n: "n \<le> size_m v" and v: "valid v h"
  from v have "size_m v \<le> capacity_m v" by (simp add: valid_def)
  with n have "n \<le> capacity_m v" by (rule order_trans)
  with v show "valid (v\<lparr>size_m := n\<rparr>) h" by (rule valid_resize)
  from v n show "elements (v\<lparr>size_m := n\<rparr>) h = take (unat n) (elements v h)"
    by (rule elements_shrink)
next
  assume a: "valid v h \<and> size_m v < n \<and> n \<le> capacity_m v"
  then have v: "valid v h" and lo: "size_m v < n" and hi: "n \<le> capacity_m v" by simp_all
  from Resize_total [OF v, of n T0] hi obtain v' h' where r: "Resize T0 n v h = Inr (v', h')"
    by blast
  note s = Resize_Inr [OF v r]
  have eq: "v' = v\<lparr>size_m := n\<rparr>" using v hi r by (rule Resize_no_grow)
  have "unat (size_m v) \<le> unat n" using lo by (simp add: word_less_nat_alt)
  moreover have "length (elements v h) = unat (size_m v)"
    using v by (cases rule: valid_cases) (simp_all add: elements_buffer [OF v] word_le_nat_alt)
  ultimately have "take (unat n) (elements v h) = elements v h" by simp
  with r s(1,4) show "\<exists>h'. Resize T0 n v h = Inr (v\<lparr>size_m := n\<rparr>, h') \<and>
      valid (v\<lparr>size_m := n\<rparr>) h' \<and>
      elements (v\<lparr>size_m := n\<rparr>) h' = elements v h @ replicate (unat n - unat (size_m v)) T0"
    unfolding eq by auto
next
  assume a: "valid v h \<and> capacity_m v < n \<and> can_alloc n h"
  then have v: "valid v h" and gt: "capacity_m v < n" and al: "can_alloc n h" by simp_all
  let ?v' = "v\<lparr>items_m := ArrayPtr (Ptr (length (blocks h)) 0), size_m := n, capacity_m := n\<rparr>"
  let ?h' = "grown v n (map (\<lambda>k. if k < unat (size_m v) then buffer v h ! k else T0) [0..<unat n]) h"
  have r: "Resize T0 n v h = Inr (?v', ?h')" using v gt al by (rule Resize_grow)
  note s = Resize_Inr [OF v r]
  have "unat (size_m v) \<le> unat n"
    using valid_size [OF v] gt by (simp add: word_less_nat_alt)
  moreover have "length (elements v h) = unat (size_m v)"
    using v by (cases rule: valid_cases) (simp_all add: elements_buffer [OF v] word_le_nat_alt)
  ultimately have t: "take (unat n) (elements v h) = elements v h" by simp
  have "length (buffer ?v' ?h') = unat n"
    by (simp add: buffer_grown [OF v])
  moreover have "block_at (length (blocks h)) h = None"
    by (simp add: block_at_def)
  moreover have "\<forall>a. items_m v = ArrayPtr (Ptr a 0) \<longrightarrow> block_at a ?h' = None"
    using valid_block(3) [OF v] by (auto simp: block_at_grown [OF v])
  ultimately show "\<exists>v' h'. Resize T0 n v h = Inr (v', h') \<and> valid v' h' \<and>
         size_m v' = n \<and> capacity_m v' = n \<and> length (buffer v' h') = unat n \<and>
         items_m v' = ArrayPtr (Ptr (length (blocks h)) 0) \<and>
         block_at (length (blocks h)) h = None \<and>
         (\<forall>a. items_m v = ArrayPtr (Ptr a 0) \<longrightarrow> block_at a h' = None) \<and>
         elements v' h' = elements v h @ replicate (unat n - unat (size_m v)) T0"
    using r s(1,4) t by (intro exI [of _ ?v'] exI [of _ ?h']) simp
next
  assume a: "valid v h \<and> m \<le> size_m v"
  then have v: "valid v h" and m: "m \<le> size_m v" by simp_all
  let ?v1 = "v\<lparr>size_m := m\<rparr>"
  have sc: "size_m v \<le> capacity_m v" using v by (simp add: valid_def)
  with m have mc: "m \<le> capacity_m v" by (rule order_trans)
  have v1: "valid ?v1 h" using v mc by (rule valid_resize)
  have 1: "Resize T0 m v h = Inr (?v1, h)" using m by (rule Resize_shrink)
  from Resize_total [OF v1, of "size_m v" T0] sc
  obtain v2 h2 where r: "Resize T0 (size_m v) ?v1 h = Inr (v2, h2)" by auto
  have "v2 = ?v1\<lparr>size_m := size_m v\<rparr>"
    by (rule Resize_no_grow [OF v1 _ r]) (use sc in simp)
  then have eq: "v2 = v" by simp
  note s = Resize_Inr [OF v1 r]
  have um: "unat m \<le> unat (size_m v)" using m by (simp add: word_le_nat_alt)
  have "elements v2 h2 = take (unat (size_m v)) (take (unat m) (elements v h)) @
      replicate (unat (size_m v) - unat m) T0"
    using s(4) by (simp add: elements_shrink [OF v m])
  with um have "elements v h2 =
      take (unat m) (elements v h) @ replicate (unat (size_m v) - unat m) T0"
    unfolding eq by (simp add: min_def)
  with 1 r s(1) show "\<exists>h2. Resize T0 m v h = Inr (v\<lparr>size_m := m\<rparr>, h) \<and>
         Resize T0 (size_m v) (v\<lparr>size_m := m\<rparr>) h = Inr (v, h2) \<and> valid v h2 \<and>
         elements v h2 =
           take (unat m) (elements v h) @ replicate (unat (size_m v) - unat m) T0"
    unfolding eq by blast
qed

theorem Resize_spec_witness:
  "valid \<lparr>size_m = 3, capacity_m = 3, items_m = ArrayPtr (Ptr 0 0)\<rparr>
     \<lparr>blocks = [Some [1, 2, 3::int]], avail = 10, fresh = (\<lambda>k. 7)\<rparr> \<and>
   valid \<lparr>size_m = 1, capacity_m = 3, items_m = ArrayPtr (Ptr 0 0)\<rparr>
     \<lparr>blocks = [Some [1, 2, 3::int]], avail = 10, fresh = (\<lambda>k. 7)\<rparr> \<and>
   can_alloc 5 \<lparr>blocks = [Some [1, 2, 3::int]], avail = 10, fresh = (\<lambda>k. 7)\<rparr> \<and>
   Resize 0 1 \<lparr>size_m = 3, capacity_m = 3, items_m = ArrayPtr (Ptr 0 0)\<rparr>
     \<lparr>blocks = [Some [1, 2, 3::int]], avail = 10, fresh = (\<lambda>k. 7)\<rparr> =
     Inr (\<lparr>size_m = 1, capacity_m = 3, items_m = ArrayPtr (Ptr 0 0)\<rparr>,
          \<lparr>blocks = [Some [1, 2, 3::int]], avail = 10, fresh = (\<lambda>k. 7)\<rparr>) \<and>
   elements \<lparr>size_m = 1, capacity_m = 3, items_m = ArrayPtr (Ptr 0 0)\<rparr>
     \<lparr>blocks = [Some [1, 2, 3::int]], avail = 10, fresh = (\<lambda>k. 7)\<rparr> = [1] \<and>
   (\<exists>h'. Resize 0 3 \<lparr>size_m = 1, capacity_m = 3, items_m = ArrayPtr (Ptr 0 0)\<rparr>
        \<lparr>blocks = [Some [1, 2, 3::int]], avail = 10, fresh = (\<lambda>k. 7)\<rparr> =
        Inr (\<lparr>size_m = 3, capacity_m = 3, items_m = ArrayPtr (Ptr 0 0)\<rparr>, h') \<and>
      elements \<lparr>size_m = 3, capacity_m = 3, items_m = ArrayPtr (Ptr 0 0)\<rparr> h' = [1, 0, 0]) \<and>
   (\<exists>v' h'. Resize 0 5 \<lparr>size_m = 3, capacity_m = 3, items_m = ArrayPtr (Ptr 0 0)\<rparr>
        \<lparr>blocks = [Some [1, 2, 3::int]], avail = 10, fresh = (\<lambda>k. 7)\<rparr> = Inr (v', h') \<and>
      size_m v' = 5 \<and> capacity_m v' = 5 \<and> items_m v' = ArrayPtr (Ptr 1 0) \<and>
      elements v' h' = [1, 2, 3, 0, 0]) \<and>
   (\<exists>h2. Resize 0 3 \<lparr>size_m = 1, capacity_m = 3, items_m = ArrayPtr (Ptr 0 0)\<rparr>
        \<lparr>blocks = [Some [1, 2, 3::int]], avail = 10, fresh = (\<lambda>k. 7)\<rparr> =
        Inr (\<lparr>size_m = 3, capacity_m = 3, items_m = ArrayPtr (Ptr 0 0)\<rparr>, h2) \<and>
      valid \<lparr>size_m = 3, capacity_m = 3, items_m = ArrayPtr (Ptr 0 0)\<rparr> h2 \<and>
      elements \<lparr>size_m = 3, capacity_m = 3, items_m = ArrayPtr (Ptr 0 0)\<rparr> h2 = [1, 0, 0])"
proof -
  let ?v = "\<lparr>size_m = 3, capacity_m = 3, items_m = ArrayPtr (Ptr 0 0)\<rparr>"
  let ?v1 = "\<lparr>size_m = 1, capacity_m = 3, items_m = ArrayPtr (Ptr 0 0)\<rparr>"
  let ?h = "\<lparr>blocks = [Some [1, 2, 3::int]], avail = 10, fresh = (\<lambda>k. 7)\<rparr>"
  have v: "valid ?v ?h" "valid ?v1 ?h" by (simp_all add: valid_def block_at_def max_array_def)
  have c: "can_alloc 5 ?h" by (simp add: can_alloc_def max_array_def)
  have e: "elements ?v ?h = [1, 2, 3]" "elements ?v1 ?h = [1]"
    by (simp_all add: elements_def block_at_def)
  have two: "replicate 2 (0::int) = [0, 0]" by (simp add: numeral_2_eq_2)
  from Resize_spec [of 1 ?v 0 ?h 1] v e
  have a: "Resize 0 1 ?v ?h = Inr (?v1, ?h)"
    and d: "\<exists>h2. Resize 0 3 ?v1 ?h = Inr (?v, h2) \<and> valid ?v h2 \<and>
      elements ?v h2 = [1, 0, 0]"
    by (simp_all add: two)
  from Resize_spec [of 3 ?v1 0 ?h 0] v e
  have b: "\<exists>h'. Resize 0 3 ?v1 ?h = Inr (?v, h') \<and> elements ?v h' = [1, 0, 0]"
    by (simp add: two) blast
  from Resize_spec [of 5 ?v 0 ?h 0] v c e
  have g: "\<exists>v' h'. Resize 0 5 ?v ?h = Inr (v', h') \<and> size_m v' = 5 \<and> capacity_m v' = 5 \<and>
      items_m v' = ArrayPtr (Ptr 1 0) \<and> elements v' h' = [1, 2, 3, 0, 0]"
    by (simp add: two) blast
  from v c e a b g d show ?thesis by simp
qed

section \<open>Insert and Emplace\<close>

text \<open>
  C3 has \<^verbatim>\<open>Insert\<close> and \<^verbatim>\<open>Emplace\<close> put their argument at position \<open>k\<close>, for every vector and
  every value. The code does not, when the vector has room and the argument is one of its
  own elements behind the position, as in \<^verbatim>\<open>v.Insert(v.begin(), v[2])\<close>: \<^verbatim>\<open>Emplace\<close> reads
  its parameter after it has shifted the elements from \<open>k\<close> on by one place, and what it
  finds at index \<open>j\<close> is then the element that was at \<open>j - 1\<close>. For every valid vector with
  room that owns its block \<open>a\<close>, and all indices \<open>k < j\<close> below the size, the element at \<open>j\<close>
  can be read before the call, and the call at \<^verbatim>\<open>begin() + k\<close> with a reference to it returns
  normally with the element that was at \<open>j - 1\<close> inserted: from \<open>[1, 2, 3]\<close> with
  capacity 4, inserting the element 3 at the front gives \<open>[2, 1, 2, 3]\<close>.
\<close>

theorem Insert_own_element:
  "valid v h \<and> size_m v < capacity_m v \<and> items_m v = ArrayPtr (Ptr a 0) \<and>
   k < j \<and> j < GetSize v \<and> ptr_add (begin_it v) k h = Inr pos \<longrightarrow>
     deref (Ptr a (unat j)) h = Inr (elements v h ! unat j) \<and>
     (\<exists>it v' h'. Emplace pos (Stored (Ptr a (unat j))) v h = Inr (it, v', h') \<and>
        Insert pos (Stored (Ptr a (unat j))) v h = Inr (it, v', h') \<and>
        elements v' h' =
          take (unat k) (elements v h) @ elements v h ! (unat j - 1) # drop (unat k) (elements v h) \<and>
        deref it h' = Inr (elements v h ! (unat j - 1)) \<and>
        unat (GetSize v') = unat (GetSize v) + 1)"
proof
  assume a: "valid v h \<and> size_m v < capacity_m v \<and> items_m v = ArrayPtr (Ptr a 0) \<and>
    k < j \<and> j < GetSize v \<and> ptr_add (begin_it v) k h = Inr pos"
  then have v: "valid v h" and lt: "size_m v < capacity_m v"
    and own: "items_m v = ArrayPtr (Ptr a 0)" and kj: "k < j" and js: "j < size_m v"
    and p: "ptr_add (begin_it v) k h = Inr pos" by (simp_all add: GetSize_def)
  let ?x = "elements v h ! (unat j - 1)"
  note blk = valid_block [OF v own]
  have k: "k \<le> size_m v" using kj js by simp
  have uj: "unat k < unat j" "unat j < unat (size_m v)"
    using kj js by (simp_all add: word_less_nat_alt)
  have sl: "unat (size_m v) \<le> length (buffer v h)"
    using valid_size [OF v] blk(2) by simp
  have jl: "unat j < length (buffer v h)" using uj(2) sl by simp
  have 1: "deref (Ptr a (unat j)) h = Inr (elements v h ! unat j)"
    using deref_block [OF blk(1) jl] uj(2) by (simp add: elements_buffer [OF v])
  have jc: "unat j < unat (capacity_m v)" using jl blk(2) by simp
  have x: "(if unat k < unat j \<and> unat j \<le> unat (size_m v) then buffer v h ! (unat j - 1)
            else buffer v h ! unat j) = ?x"
    using uj by (simp add: elements_buffer [OF v])
  from Emplace_room_own [OF v lt k p own jc]
  have same: "Emplace pos (Stored (Ptr a (unat j))) v h = Emplace pos (Local ?x) v h"
    unfolding x .
  from Emplace_total [OF v k p, of ?x] lt obtain it v' h' where
    e: "Emplace pos (Local ?x) v h = Inr (it, v', h')" by blast
  note s = Emplace_at [OF v k p e]
  from same e s(3,4,7)
  have "Emplace pos (Stored (Ptr a (unat j))) v h = Inr (it, v', h') \<and>
        Insert pos (Stored (Ptr a (unat j))) v h = Inr (it, v', h') \<and>
        elements v' h' = take (unat k) (elements v h) @ ?x # drop (unat k) (elements v h) \<and>
        deref it h' = Inr ?x \<and> unat (GetSize v') = unat (GetSize v) + 1"
    by (simp add: Insert_def GetSize_def)
  then have "\<exists>it v' h'. Emplace pos (Stored (Ptr a (unat j))) v h = Inr (it, v', h') \<and>
        Insert pos (Stored (Ptr a (unat j))) v h = Inr (it, v', h') \<and>
        elements v' h' = take (unat k) (elements v h) @ ?x # drop (unat k) (elements v h) \<and>
        deref it h' = Inr ?x \<and> unat (GetSize v') = unat (GetSize v) + 1"
    by blast
  with 1 show "deref (Ptr a (unat j)) h = Inr (elements v h ! unat j) \<and>
     (\<exists>it v' h'. Emplace pos (Stored (Ptr a (unat j))) v h = Inr (it, v', h') \<and>
        Insert pos (Stored (Ptr a (unat j))) v h = Inr (it, v', h') \<and>
        elements v' h' =
          take (unat k) (elements v h) @ elements v h ! (unat j - 1) # drop (unat k) (elements v h) \<and>
        deref it h' = Inr (elements v h ! (unat j - 1)) \<and>
        unat (GetSize v') = unat (GetSize v) + 1)" ..
qed

theorem Insert_own_element_witness:
  "valid \<lparr>size_m = 3, capacity_m = 4, items_m = ArrayPtr (Ptr 0 0)\<rparr>
     \<lparr>blocks = [Some [1, 2, 3, 0::int]], avail = 96, fresh = (\<lambda>k. 0)\<rparr> \<and>
   elements \<lparr>size_m = 3, capacity_m = 4, items_m = ArrayPtr (Ptr 0 0)\<rparr>
     \<lparr>blocks = [Some [1, 2, 3, 0::int]], avail = 96, fresh = (\<lambda>k. 0)\<rparr> = [1, 2, 3] \<and>
   ptr_add (begin_it \<lparr>size_m = 3, capacity_m = 4, items_m = ArrayPtr (Ptr 0 0)\<rparr>) 0
     \<lparr>blocks = [Some [1, 2, 3, 0::int]], avail = 96, fresh = (\<lambda>k. 0)\<rparr> = Inr (Ptr 0 0) \<and>
   deref (Ptr 0 2) \<lparr>blocks = [Some [1, 2, 3, 0::int]], avail = 96, fresh = (\<lambda>k. 0)\<rparr> = Inr 3 \<and>
   Insert (Ptr 0 0) (Stored (Ptr 0 2))
     \<lparr>size_m = 3, capacity_m = 4, items_m = ArrayPtr (Ptr 0 0)\<rparr>
     \<lparr>blocks = [Some [1, 2, 3, 0::int]], avail = 96, fresh = (\<lambda>k. 0)\<rparr> =
     Inr (Ptr 0 0, \<lparr>size_m = 4, capacity_m = 4, items_m = ArrayPtr (Ptr 0 0)\<rparr>,
          \<lparr>blocks = [Some [2, 1, 2, 3]], avail = 96, fresh = (\<lambda>k. 0)\<rparr>) \<and>
   (\<exists>it v' h'. Emplace (Ptr 0 0) (Stored (Ptr 0 2))
        \<lparr>size_m = 3, capacity_m = 4, items_m = ArrayPtr (Ptr 0 0)\<rparr>
        \<lparr>blocks = [Some [1, 2, 3, 0::int]], avail = 96, fresh = (\<lambda>k. 0)\<rparr> = Inr (it, v', h') \<and>
      elements v' h' = [2, 1, 2, 3] \<and> deref it h' = Inr 2 \<and> unat (GetSize v') = 4)"
proof -
  let ?v = "\<lparr>size_m = 3, capacity_m = 4, items_m = ArrayPtr (Ptr 0 0)\<rparr>"
  let ?h = "\<lparr>blocks = [Some [1, 2, 3, 0::int]], avail = 96, fresh = (\<lambda>k. 0)\<rparr>"
  have v: "valid ?v ?h" by (simp add: valid_def block_at_def max_array_def)
  have e: "elements ?v ?h = [1, 2, 3]" by (simp add: elements_def block_at_def)
  have p: "ptr_add (begin_it ?v) 0 ?h = Inr (Ptr 0 0)"
    by (simp add: begin_it_def Get_def ptr_add_def block_at_def)
  have d: "deref (Ptr 0 2) ?h = Inr 3" by (simp add: deref_def block_at_def)
  have two: "unat (2 :: size_t) = 2" "unat (2 :: size_t) - 1 = 1" by simp_all
  have ev: "Insert (Ptr 0 0) (Stored (Ptr 0 2)) ?v ?h =
     Inr (Ptr 0 0, \<lparr>size_m = 4, capacity_m = 4, items_m = ArrayPtr (Ptr 0 0)\<rparr>,
          \<lparr>blocks = [Some [2, 1, 2, 3]], avail = 96, fresh = (\<lambda>k. 0)\<rparr>)"
    by (simp add: Insert_def Emplace_def begin_it_def Get_def read_ref_def put_def
        ArrayPtr_index_def subscript_def block_at_def assign_to_def for_down.simps
        move_elem_def deref_def Let_def ptr_add_def)
  from Insert_own_element [of ?v ?h 0 0 2 "Ptr 0 0"] v p
  have "\<exists>it v' h'. Emplace (Ptr 0 0) (Stored (Ptr 0 (unat (2 :: size_t)))) ?v ?h = Inr (it, v', h') \<and>
      elements v' h' = take (unat (0 :: size_t)) (elements ?v ?h) @
        elements ?v ?h ! (unat (2 :: size_t) - 1) # drop (unat (0 :: size_t)) (elements ?v ?h) \<and>
      deref it h' = Inr (elements ?v ?h ! (unat (2 :: size_t) - 1)) \<and>
      unat (GetSize v') = unat (GetSize ?v) + 1"
    by (simp add: GetSize_def) blast
  then have "\<exists>it v' h'. Emplace (Ptr 0 0) (Stored (Ptr 0 2)) ?v ?h = Inr (it, v', h') \<and>
      elements v' h' = [2, 1, 2, 3] \<and> deref it h' = Inr 2 \<and> unat (GetSize v') = 4"
    unfolding e two by (simp add: GetSize_def)
  with v e p d ev show ?thesis by simp
qed

text \<open>
  With an argument outside the free store the calls do what C3 says. On a valid vector of
  size \<open>n\<close>, every \<open>k \<le> n\<close> is a position \<^verbatim>\<open>begin() + k\<close> (\<open>k = n\<close> is \<^verbatim>\<open>end()\<close>). With room,
  or when the new block can be allocated, \<^verbatim>\<open>Emplace\<close> (and \<^verbatim>\<open>Insert\<close>, which calls it) at that
  position returns normally: the elements are the first \<open>k\<close> old ones, the new one, and
  the old ones from \<open>k\<close> on; the size is one more; the iterator returned is
  \<^verbatim>\<open>begin() + k\<close> of the vector as it is now and designates the new element; the capacity
  is unchanged when there was room, 1 when it was 0, and twice what it was otherwise.
\<close>

lemma Insert_local:
  "(valid v h \<and> k \<le> GetSize v \<longrightarrow> (\<exists>pos. ptr_add (begin_it v) k h = Inr pos)) \<and>
   (valid v h \<and> k \<le> GetSize v \<and> ptr_add (begin_it v) k h = Inr pos \<and>
    (size_m v < capacity_m v \<or> can_alloc (if capacity_m v = 0 then 1 else capacity_m v * 2) h) \<longrightarrow>
      (\<exists>it v' h'. Emplace pos (Local x) v h = Inr (it, v', h') \<and> Insert pos (Local x) v h = Inr (it, v', h') \<and>
         valid v' h' \<and>
         elements v' h' = take (unat k) (elements v h) @ x # drop (unat k) (elements v h) \<and>
         unat (GetSize v') = unat (GetSize v) + 1 \<and>
         ptr_add (begin_it v') k h' = Inr it \<and> deref it h' = Inr x \<and>
         unat (GetCapacity v') =
           (if size_m v < capacity_m v then unat (GetCapacity v)
            else if capacity_m v = 0 then 1 else 2 * unat (GetCapacity v))))"
proof (intro conjI impI)
  assume "valid v h \<and> k \<le> GetSize v"
  then have v: "valid v h" and k: "k \<le> size_m v" by (simp_all add: GetSize_def)
  from v have "size_m v \<le> capacity_m v" by (simp add: valid_def)
  with k have "k \<le> capacity_m v" by (rule order_trans)
  with v show "\<exists>pos. ptr_add (begin_it v) k h = Inr pos"
    by (simp add: position_total)
next
  assume a: "valid v h \<and> k \<le> GetSize v \<and> ptr_add (begin_it v) k h = Inr pos \<and>
    (size_m v < capacity_m v \<or> can_alloc (if capacity_m v = 0 then 1 else capacity_m v * 2) h)"
  then have v: "valid v h" and k: "k \<le> size_m v" and p: "ptr_add (begin_it v) k h = Inr pos"
    by (simp_all add: GetSize_def)
  from a Emplace_total [OF v k p] obtain it v' h' where e: "Emplace pos (Local x) v h = Inr (it, v', h')"
    by blast
  note s = Emplace_at [OF v k p e]
  note nc = new_capacity(1) [OF v]
  have "unat (capacity_m v') =
           (if size_m v < capacity_m v then unat (capacity_m v)
            else if capacity_m v = 0 then 1 else 2 * unat (capacity_m v))"
    using s(5) nc by simp
  with e s show "\<exists>it v' h'. Emplace pos (Local x) v h = Inr (it, v', h') \<and>
         Insert pos (Local x) v h = Inr (it, v', h') \<and> valid v' h' \<and>
         elements v' h' = take (unat k) (elements v h) @ x # drop (unat k) (elements v h) \<and>
         unat (GetSize v') = unat (GetSize v) + 1 \<and>
         ptr_add (begin_it v') k h' = Inr it \<and> deref it h' = Inr x \<and>
         unat (GetCapacity v') =
           (if size_m v < capacity_m v then unat (GetCapacity v)
            else if capacity_m v = 0 then 1 else 2 * unat (GetCapacity v))"
    by (simp add: Insert_def GetSize_def GetCapacity_def)
qed

lemma Insert_local_example:
  "valid \<lparr>size_m = 3, capacity_m = 3, items_m = ArrayPtr (Ptr 0 0)\<rparr>
     \<lparr>blocks = [Some [1, 2, 3::int]], avail = 10, fresh = (\<lambda>k. 7)\<rparr> \<and>
   (0::size_t) \<le> GetSize \<lparr>size_m = 3, capacity_m = 3, items_m = ArrayPtr (Ptr 0 0)\<rparr> \<and>
   ptr_add (begin_it \<lparr>size_m = 3, capacity_m = 3, items_m = ArrayPtr (Ptr 0 0)\<rparr>) 0
     \<lparr>blocks = [Some [1, 2, 3::int]], avail = 10, fresh = (\<lambda>k. 7)\<rparr> = Inr (Ptr 0 0) \<and>
   can_alloc (3 * 2) \<lparr>blocks = [Some [1, 2, 3::int]], avail = 10, fresh = (\<lambda>k. 7)\<rparr> \<and>
   (\<exists>it v' h'. Insert (Ptr 0 0) (Local 0) \<lparr>size_m = 3, capacity_m = 3, items_m = ArrayPtr (Ptr 0 0)\<rparr>
        \<lparr>blocks = [Some [1, 2, 3::int]], avail = 10, fresh = (\<lambda>k. 7)\<rparr> = Inr (it, v', h') \<and>
      valid v' h' \<and> elements v' h' = [0, 1, 2, 3] \<and> unat (GetSize v') = 4 \<and>
      unat (GetCapacity v') = 6 \<and> deref it h' = Inr 0) \<and>
   Emplace (Ptr 0 0) (Local 0) \<lparr>size_m = 3, capacity_m = 3, items_m = ArrayPtr (Ptr 0 0)\<rparr>
     \<lparr>blocks = [Some [1, 2, 3::int]], avail = 10, fresh = (\<lambda>k. 7)\<rparr> =
     Inr (Ptr 1 0, \<lparr>size_m = 4, capacity_m = 6, items_m = ArrayPtr (Ptr 1 0)\<rparr>,
          \<lparr>blocks = [None, Some [0, 1, 2, 3, 7, 7]], avail = 7, fresh = (\<lambda>k. 7)\<rparr>)"
proof -
  let ?v = "\<lparr>size_m = 3, capacity_m = 3, items_m = ArrayPtr (Ptr 0 0)\<rparr>"
  let ?h = "\<lparr>blocks = [Some [1, 2, 3::int]], avail = 10, fresh = (\<lambda>k. 7)\<rparr>"
  have v: "valid ?v ?h" by (simp add: valid_def block_at_def max_array_def)
  have c: "can_alloc (3 * 2) ?h" by (simp add: can_alloc_def max_array_def)
  have e: "elements ?v ?h = [1, 2, 3]" by (simp add: elements_def block_at_def)
  have p: "ptr_add (begin_it ?v) 0 ?h = Inr (Ptr 0 0)"
    by (simp add: begin_it_def Get_def ptr_add_def block_at_def)
  have ev: "Emplace (Ptr 0 0) (Local 0) ?v ?h =
     Inr (Ptr 1 0, \<lparr>size_m = 4, capacity_m = 6, items_m = ArrayPtr (Ptr 1 0)\<rparr>,
          \<lparr>blocks = [None, Some [0, 1, 2, 3, 7, 7]], avail = 7, fresh = (\<lambda>k. 7)\<rparr>)"
    by (simp add: Emplace_def begin_it_def Get_def ArrayPtr_sized_def new_array_def max_array_def
        ArrayPtr_destroy_def delete_array_def put_def ArrayPtr_index_def subscript_def
        block_at_def assign_to_def for_up.simps move_elem_def deref_def Let_def upt_conv_Cons
        ptr_add_def)
  from Insert_local [of ?v ?h 0 "Ptr 0 0" 0] v c e p
  have "\<exists>it v' h'. Insert (Ptr 0 0) (Local 0) ?v ?h = Inr (it, v', h') \<and>
      valid v' h' \<and> elements v' h' = [0, 1, 2, 3] \<and> unat (GetSize v') = 4 \<and>
      unat (GetCapacity v') = 6 \<and> deref it h' = Inr 0"
    by (auto simp: GetSize_def GetCapacity_def)
  with v c p ev show ?thesis by (simp add: GetSize_def)
qed

section \<open>A failed allocation\<close>

text \<open>
  C6. On a valid vector, when \<^verbatim>\<open>new Type[n]\<close> for the new buffer throws
  \<^verbatim>\<open>std::bad_alloc\<close>, each growing operation throws it too, and the vector and the free
  store it leaves behind are the ones before the call: \<^verbatim>\<open>Reserve(n)\<close> and \<^verbatim>\<open>Resize(n)\<close> with
  \<open>n\<close> above the capacity, \<^verbatim>\<open>EmplaceBack\<close> and \<^verbatim>\<open>PushBack\<close> on a full vector, \<^verbatim>\<open>Emplace\<close> and
  \<^verbatim>\<open>Insert\<close> on a full vector at a position \<^verbatim>\<open>begin() + k\<close> with \<open>k\<close> at most the size,
  whatever their argument \<open>x\<close> refers to.
\<close>

theorem bad_alloc_leaves_state:
  "valid v h \<longrightarrow>
     (capacity_m v < n \<and> new_array n h = Inl (bad_alloc, h) \<longrightarrow>
        Reserve n v h = Inl (bad_alloc, v, h) \<and> Resize T0 n v h = Inl (bad_alloc, v, h)) \<and>
     (size_m v = capacity_m v \<and>
      new_array (if capacity_m v = 0 then 1 else capacity_m v * 2) h = Inl (bad_alloc, h) \<longrightarrow>
        EmplaceBack x v h = Inl (bad_alloc, v, h) \<and> PushBack x v h = Inl (bad_alloc, v, h) \<and>
        (k \<le> size_m v \<and> ptr_add (begin_it v) k h = Inr pos \<longrightarrow>
           Emplace pos x v h = Inl (bad_alloc, v, h) \<and> Insert pos x v h = Inl (bad_alloc, v, h)))"
proof (intro conjI impI)
  assume v: "valid v h"
  {
    assume a: "capacity_m v < n \<and> new_array n h = Inl (bad_alloc, h)"
    then have "capacity_m v < n" "\<not> can_alloc n h" by (auto dest: new_array_Inl)
    then show "Reserve n v h = Inl (bad_alloc, v, h)" by (rule Reserve_fails)
    from v \<open>capacity_m v < n\<close> \<open>\<not> can_alloc n h\<close>
    show "Resize T0 n v h = Inl (bad_alloc, v, h)" by (rule Resize_fails)
  }
  {
    assume a: "size_m v = capacity_m v \<and>
      new_array (if capacity_m v = 0 then 1 else capacity_m v * 2) h = Inl (bad_alloc, h)"
    then have full: "size_m v = capacity_m v"
      and al: "\<not> can_alloc (if capacity_m v = 0 then 1 else capacity_m v * 2) h"
      by (auto dest: new_array_Inl)
    from v full al show e: "EmplaceBack x v h = Inl (bad_alloc, v, h)" by (rule EmplaceBack_fails)
    then show "PushBack x v h = Inl (bad_alloc, v, h)" by (simp add: PushBack_def)
    {
      assume "k \<le> size_m v \<and> ptr_add (begin_it v) k h = Inr pos"
      then have k: "k \<le> size_m v" and p: "ptr_add (begin_it v) k h = Inr pos" by simp_all
      from v full k p al show "Emplace pos x v h = Inl (bad_alloc, v, h)" by (rule Emplace_fails)
      then show "Insert pos x v h = Inl (bad_alloc, v, h)" by (simp add: Insert_def)
    }
  }
qed

theorem bad_alloc_leaves_state_witness:
  "valid \<lparr>size_m = 3, capacity_m = 3, items_m = ArrayPtr (Ptr 0 0)\<rparr>
     \<lparr>blocks = [Some [1, 2, 3::int]], avail = 4, fresh = (\<lambda>k. 7)\<rparr> \<and>
   new_array 5 \<lparr>blocks = [Some [1, 2, 3::int]], avail = 4, fresh = (\<lambda>k. 7)\<rparr> =
     Inl (bad_alloc, \<lparr>blocks = [Some [1, 2, 3::int]], avail = 4, fresh = (\<lambda>k. 7)\<rparr>) \<and>
   new_array (3 * 2) \<lparr>blocks = [Some [1, 2, 3::int]], avail = 4, fresh = (\<lambda>k. 7)\<rparr> =
     Inl (bad_alloc, \<lparr>blocks = [Some [1, 2, 3::int]], avail = 4, fresh = (\<lambda>k. 7)\<rparr>) \<and>
   ptr_add (begin_it \<lparr>size_m = 3, capacity_m = 3, items_m = ArrayPtr (Ptr 0 0)\<rparr>) 1
     \<lparr>blocks = [Some [1, 2, 3::int]], avail = 4, fresh = (\<lambda>k. 7)\<rparr> = Inr (Ptr 0 1) \<and>
   Reserve 5 \<lparr>size_m = 3, capacity_m = 3, items_m = ArrayPtr (Ptr 0 0)\<rparr>
     \<lparr>blocks = [Some [1, 2, 3::int]], avail = 4, fresh = (\<lambda>k. 7)\<rparr> =
     Inl (bad_alloc, \<lparr>size_m = 3, capacity_m = 3, items_m = ArrayPtr (Ptr 0 0)\<rparr>,
          \<lparr>blocks = [Some [1, 2, 3::int]], avail = 4, fresh = (\<lambda>k. 7)\<rparr>) \<and>
   Resize 0 5 \<lparr>size_m = 3, capacity_m = 3, items_m = ArrayPtr (Ptr 0 0)\<rparr>
     \<lparr>blocks = [Some [1, 2, 3::int]], avail = 4, fresh = (\<lambda>k. 7)\<rparr> =
     Inl (bad_alloc, \<lparr>size_m = 3, capacity_m = 3, items_m = ArrayPtr (Ptr 0 0)\<rparr>,
          \<lparr>blocks = [Some [1, 2, 3::int]], avail = 4, fresh = (\<lambda>k. 7)\<rparr>) \<and>
   PushBack (Local 9) \<lparr>size_m = 3, capacity_m = 3, items_m = ArrayPtr (Ptr 0 0)\<rparr>
     \<lparr>blocks = [Some [1, 2, 3::int]], avail = 4, fresh = (\<lambda>k. 7)\<rparr> =
     Inl (bad_alloc, \<lparr>size_m = 3, capacity_m = 3, items_m = ArrayPtr (Ptr 0 0)\<rparr>,
          \<lparr>blocks = [Some [1, 2, 3::int]], avail = 4, fresh = (\<lambda>k. 7)\<rparr>) \<and>
   Insert (Ptr 0 1) (Local 9) \<lparr>size_m = 3, capacity_m = 3, items_m = ArrayPtr (Ptr 0 0)\<rparr>
     \<lparr>blocks = [Some [1, 2, 3::int]], avail = 4, fresh = (\<lambda>k. 7)\<rparr> =
     Inl (bad_alloc, \<lparr>size_m = 3, capacity_m = 3, items_m = ArrayPtr (Ptr 0 0)\<rparr>,
          \<lparr>blocks = [Some [1, 2, 3::int]], avail = 4, fresh = (\<lambda>k. 7)\<rparr>)"
proof -
  let ?v = "\<lparr>size_m = 3, capacity_m = 3, items_m = ArrayPtr (Ptr 0 0)\<rparr>"
  let ?h = "\<lparr>blocks = [Some [1, 2, 3::int]], avail = 4, fresh = (\<lambda>k. 7)\<rparr>"
  have v: "valid ?v ?h" by (simp add: valid_def block_at_def max_array_def)
  have n: "new_array 5 ?h = Inl (bad_alloc, ?h)" "new_array (3 * 2) ?h = Inl (bad_alloc, ?h)"
    by (simp_all add: new_array_def)
  have p: "ptr_add (begin_it ?v) 1 ?h = Inr (Ptr 0 1)"
    by (simp add: begin_it_def Get_def ptr_add_def block_at_def)
  from bad_alloc_leaves_state [of ?v ?h 5 0 "Local 9" 1 "Ptr 0 1"] v n p
  show ?thesis by simp
qed

section \<open>Copies\<close>

text \<open>
  C7, amended. The copy constructor, on a valid source and with memory for its elements,
  returns a valid vector with the source's elements in order, its size, and a capacity
  equal to the source's size. Its buffer, if it has one, is a block that was not allocated
  before, so it is not the source's; the source is as it was, and it stays so through
  every sequence of mutating calls on the copy. Copy assignment between two different
  objects (\<^verbatim>\<open>this != &rhs\<close>) whose buffers are apart does the same for the assigned vector,
  leaves \<open>rhs\<close> and every other object of the store alone, and deletes the buffer the
  assigned vector had. Copy assignment of an object to itself makes no copy and changes
  nothing.
\<close>

theorem copy_spec:
  "(valid other h \<and> (size_m other = 0 \<or> can_alloc (size_m other) h) \<longrightarrow>
      (\<exists>c h1. SimpleVector_copy other h = Inr (c, h1) \<and> valid c h1 \<and>
         elements c h1 = elements other h \<and>
         GetSize c = GetSize other \<and> GetCapacity c = GetSize other \<and>
         (\<forall>a. items_m c = ArrayPtr (Ptr a 0) \<longrightarrow> block_at a h = None) \<and>
         valid other h1 \<and> elements other h1 = elements other h \<and> apart other c \<and>
         (\<forall>ms c' h2. mutate_all ms c h1 = Inr (c', h2) \<longrightarrow>
            valid other h2 \<and> elements other h2 = elements other h))) \<and>
   (this \<noteq> rhs \<and> valid (V this) h \<and> valid (V rhs) h \<and> apart (V rhs) (V this) \<and>
    (size_m (V rhs) = 0 \<or> can_alloc (size_m (V rhs)) h) \<longrightarrow>
      (\<exists>V' h1. copy_assign this rhs V h = Inr (V', h1) \<and> (\<forall>q. q \<noteq> this \<longrightarrow> V' q = V q) \<and>
         valid (V' this) h1 \<and> elements (V' this) h1 = elements (V rhs) h \<and>
         GetSize (V' this) = GetSize (V rhs) \<and> GetCapacity (V' this) = GetSize (V rhs) \<and>
         (\<forall>a. items_m (V this) = ArrayPtr (Ptr a 0) \<longrightarrow> block_at a h1 = None) \<and>
         valid (V' rhs) h1 \<and> elements (V' rhs) h1 = elements (V rhs) h \<and>
         apart (V' rhs) (V' this) \<and>
         (\<forall>ms c' h2. mutate_all ms (V' this) h1 = Inr (c', h2) \<longrightarrow>
            valid (V' rhs) h2 \<and> elements (V' rhs) h2 = elements (V rhs) h))) \<and>
   copy_assign this this V h = Inr (V, h)"
proof (intro conjI impI)
  show "copy_assign this this V h = Inr (V, h)" by (simp add: copy_assign_def)
next
  assume a: "valid other h \<and> (size_m other = 0 \<or> can_alloc (size_m other) h)"
  then have v: "valid other h" by simp
  from a SimpleVector_copy_total [OF v] obtain c h1
    where c: "SimpleVector_copy other h = Inr (c, h1)" by blast
  note s = SimpleVector_copy_Inr [OF v c]
  note o = frame_other [OF s(5) v apart_default]
  have fr: "\<forall>a. items_m c = ArrayPtr (Ptr a 0) \<longrightarrow> block_at a h = None"
    using s(5) by (auto simp: frame_def block_at_def)
  have "valid other h2 \<and> elements other h2 = elements other h"
    if "mutate_all ms c h1 = Inr (c', h2)" for ms c' h2
    using mutate_all_other [OF s(1) o(1,3) that] o(2) by simp
  with c s o fr show "\<exists>c h1. SimpleVector_copy other h = Inr (c, h1) \<and> valid c h1 \<and>
         elements c h1 = elements other h \<and>
         GetSize c = GetSize other \<and> GetCapacity c = GetSize other \<and>
         (\<forall>a. items_m c = ArrayPtr (Ptr a 0) \<longrightarrow> block_at a h = None) \<and>
         valid other h1 \<and> elements other h1 = elements other h \<and> apart other c \<and>
         (\<forall>ms c' h2. mutate_all ms c h1 = Inr (c', h2) \<longrightarrow>
            valid other h2 \<and> elements other h2 = elements other h)"
    by (simp add: GetSize_def GetCapacity_def)
next
  assume a: "this \<noteq> rhs \<and> valid (V this) h \<and> valid (V rhs) h \<and> apart (V rhs) (V this) \<and>
    (size_m (V rhs) = 0 \<or> can_alloc (size_m (V rhs)) h)"
  then have ne: "this \<noteq> rhs" and vt: "valid (V this) h" and vr: "valid (V rhs) h"
    and ap: "apart (V rhs) (V this)" by simp_all
  from a copy_assign_total [OF ne vt vr] obtain V' h1
    where c: "copy_assign this rhs V h = Inr (V', h1)" by blast
  note s = copy_assign_Inr [OF ne vt vr c]
  from s(1) ne have same: "V' rhs = V rhs" by simp
  note o = frame_other [OF s(3) vr ap]
  have del: "\<forall>a. items_m (V this) = ArrayPtr (Ptr a 0) \<longrightarrow> block_at a h1 = None"
  proof (intro allI impI)
    fix a assume it: "items_m (V this) = ArrayPtr (Ptr a 0)"
    from c ne obtain t h0 where "SimpleVector_copy (V rhs) h = Inr (t, h0)"
      by (auto simp: copy_assign_def and_then_eq_Inr in_this_eq_Inr)
    from copy_assign_distinct [OF ne vt vr this] c
    have "h1 = released (raw_ptr_m (items_m (V this))) h0" by simp
    with it show "block_at a h1 = None" by (simp add: block_at_released)
  qed
  have "valid (V rhs) h2 \<and> elements (V rhs) h2 = elements (V rhs) h"
    if "mutate_all ms (V' this) h1 = Inr (c', h2)" for ms c' h2
    using mutate_all_other [OF s(2) o(1,3) that] o(2) by simp
  with c s o del show "\<exists>V' h1. copy_assign this rhs V h = Inr (V', h1) \<and>
         (\<forall>q. q \<noteq> this \<longrightarrow> V' q = V q) \<and>
         valid (V' this) h1 \<and> elements (V' this) h1 = elements (V rhs) h \<and>
         GetSize (V' this) = GetSize (V rhs) \<and> GetCapacity (V' this) = GetSize (V rhs) \<and>
         (\<forall>a. items_m (V this) = ArrayPtr (Ptr a 0) \<longrightarrow> block_at a h1 = None) \<and>
         valid (V' rhs) h1 \<and> elements (V' rhs) h1 = elements (V rhs) h \<and>
         apart (V' rhs) (V' this) \<and>
         (\<forall>ms c' h2. mutate_all ms (V' this) h1 = Inr (c', h2) \<longrightarrow>
            valid (V' rhs) h2 \<and> elements (V' rhs) h2 = elements (V rhs) h)"
    by (intro exI [of _ V'] exI [of _ h1]) (simp add: GetSize_def GetCapacity_def same)
qed

theorem copy_spec_witness:
  "valid \<lparr>size_m = 2, capacity_m = 3, items_m = ArrayPtr (Ptr 0 0)\<rparr>
     \<lparr>blocks = [Some [1, 2, 9::int]], avail = 10, fresh = (\<lambda>k. 7)\<rparr> \<and>
   can_alloc 2 \<lparr>blocks = [Some [1, 2, 9::int]], avail = 10, fresh = (\<lambda>k. 7)\<rparr> \<and>
   SimpleVector_copy \<lparr>size_m = 2, capacity_m = 3, items_m = ArrayPtr (Ptr 0 0)\<rparr>
     \<lparr>blocks = [Some [1, 2, 9::int]], avail = 10, fresh = (\<lambda>k. 7)\<rparr> =
     Inr (\<lparr>size_m = 2, capacity_m = 2, items_m = ArrayPtr (Ptr 1 0)\<rparr>,
          \<lparr>blocks = [Some [1, 2, 9], Some [1, 2]], avail = 8, fresh = (\<lambda>k. 7)\<rparr>) \<and>
   elements \<lparr>size_m = 2, capacity_m = 2, items_m = ArrayPtr (Ptr 1 0)\<rparr>
     \<lparr>blocks = [Some [1, 2, 9], Some [1, 2::int]], avail = 8, fresh = (\<lambda>k. 7)\<rparr> = [1, 2] \<and>
   mutate_all [Do_PushBack (Local 5), Do_At_assign 0 7]
     \<lparr>size_m = 2, capacity_m = 2, items_m = ArrayPtr (Ptr 1 0)\<rparr>
     \<lparr>blocks = [Some [1, 2, 9], Some [1, 2::int]], avail = 8, fresh = (\<lambda>k. 7)\<rparr> =
     Inr (\<lparr>size_m = 3, capacity_m = 4, items_m = ArrayPtr (Ptr 2 0)\<rparr>,
          \<lparr>blocks = [Some [1, 2, 9], None, Some [7, 2, 5, 7]], avail = 6, fresh = (\<lambda>k. 7)\<rparr>) \<and>
   valid \<lparr>size_m = 2, capacity_m = 3, items_m = ArrayPtr (Ptr 0 0)\<rparr>
     \<lparr>blocks = [Some [1, 2, 9], None, Some [7, 2, 5, 7::int]], avail = 6, fresh = (\<lambda>k. 7)\<rparr> \<and>
   elements \<lparr>size_m = 2, capacity_m = 3, items_m = ArrayPtr (Ptr 0 0)\<rparr>
     \<lparr>blocks = [Some [1, 2, 9], None, Some [7, 2, 5, 7::int]], avail = 6, fresh = (\<lambda>k. 7)\<rparr> =
     [1, 2] \<and>
   True \<noteq> False \<and>
   valid \<lparr>size_m = 1, capacity_m = 1, items_m = ArrayPtr (Ptr 1 0)\<rparr>
     \<lparr>blocks = [Some [1, 2, 9], Some [4::int]], avail = 10, fresh = (\<lambda>k. 7)\<rparr> \<and>
   apart \<lparr>size_m = 2, capacity_m = 3, items_m = ArrayPtr (Ptr 0 0)\<rparr>
     \<lparr>size_m = 1, capacity_m = 1, items_m = ArrayPtr (Ptr 1 0)\<rparr> \<and>
   (\<exists>V' h1.
      copy_assign True False
        (\<lambda>r. if r then \<lparr>size_m = 1, capacity_m = 1, items_m = ArrayPtr (Ptr 1 0)\<rparr>
              else \<lparr>size_m = 2, capacity_m = 3, items_m = ArrayPtr (Ptr 0 0)\<rparr>)
        \<lparr>blocks = [Some [1, 2, 9], Some [4::int]], avail = 10, fresh = (\<lambda>k. 7)\<rparr> =
        Inr (V', h1) \<and>
      V' False = \<lparr>size_m = 2, capacity_m = 3, items_m = ArrayPtr (Ptr 0 0)\<rparr> \<and>
      valid (V' True) h1 \<and> elements (V' True) h1 = [1, 2] \<and> GetCapacity (V' True) = 2 \<and>
      block_at 1 h1 = None \<and> elements (V' False) h1 = [1, 2])"
proof -
  let ?o = "\<lparr>size_m = 2, capacity_m = 3, items_m = ArrayPtr (Ptr 0 0)\<rparr>"
  let ?h = "\<lparr>blocks = [Some [1, 2, 9::int]], avail = 10, fresh = (\<lambda>k. 7)\<rparr>"
  let ?c = "\<lparr>size_m = 2, capacity_m = 2, items_m = ArrayPtr (Ptr 1 0)\<rparr>"
  let ?h1 = "\<lparr>blocks = [Some [1, 2, 9], Some [1, 2::int]], avail = 8, fresh = (\<lambda>k. 7)\<rparr>"
  let ?c' = "\<lparr>size_m = 3, capacity_m = 4, items_m = ArrayPtr (Ptr 2 0)\<rparr>"
  let ?h2 = "\<lparr>blocks = [Some [1, 2, 9], None, Some [7, 2, 5, 7::int]], avail = 6, fresh = (\<lambda>k. 7)\<rparr>"
  let ?t = "\<lparr>size_m = 1, capacity_m = 1, items_m = ArrayPtr (Ptr 1 0)\<rparr>"
  let ?V = "\<lambda>r. if r then ?t else ?o"
  let ?hA = "\<lparr>blocks = [Some [1, 2, 9], Some [4::int]], avail = 10, fresh = (\<lambda>k. 7)\<rparr>"
  note ev = ArrayPtr_sized_def new_array_def max_array_def ArrayPtr_destroy_def
    delete_array_def put_def ArrayPtr_index_def subscript_def block_at_def assign_to_def
    for_up.simps move_elem_def deref_def Let_def upt_conv_Cons
  have v: "valid ?o ?h" "valid ?o ?hA" "valid ?t ?hA"
    by (simp_all add: valid_def block_at_def max_array_def)
  have al: "can_alloc 2 ?h" "can_alloc 2 ?hA" by (simp_all add: can_alloc_def max_array_def)
  have ap: "apart ?o ?t" by (simp add: apart_def)
  have e: "elements ?o ?h = [1, 2]" "elements ?o ?hA = [1, 2]" "elements ?c ?h1 = [1, 2]"
    by (simp_all add: elements_def block_at_def)
  have c: "SimpleVector_copy ?o ?h = Inr (?c, ?h1)"
    by (simp add: SimpleVector_copy_def ev)
  have m: "mutate_all [Do_PushBack (Local 5), Do_At_assign 0 7] ?c ?h1 = Inr (?c', ?h2)"
    by (simp add: PushBack_def EmplaceBack_def At_def ev)
  from copy_spec [where other = ?o and h = ?h and this = True and rhs = False and V = ?V] v al c m e
  have 1: "valid ?o ?h2 \<and> elements ?o ?h2 = [1, 2]"
    by (auto simp del: mutate_all.simps)
  from copy_spec [where other = ?o and h = ?hA and this = True and rhs = False and V = ?V] v al ap e
  have 2: "\<exists>V' h1. copy_assign True False ?V ?hA = Inr (V', h1) \<and> V' False = ?o \<and>
      valid (V' True) h1 \<and> elements (V' True) h1 = [1, 2] \<and> GetCapacity (V' True) = 2 \<and>
      block_at 1 h1 = None \<and> elements (V' False) h1 = [1, 2]"
    by (simp add: GetSize_def) blast
  from v al c e m 1 ap 2 show ?thesis
    by (simp del: mutate_all.simps)
qed

text \<open>
  What C7 says of copy assignment does not hold of \<^verbatim>\<open>v = v\<close>. For a vector of size 2 and
  capacity 3, the guard \<^verbatim>\<open>this != &rhs\<close> skips the copy and the swap: the vector keeps
  its block and its capacity 3, which is not the source's size 2.
\<close>

theorem copy_assign_self_keeps_capacity:
  "copy_assign (0::nat) 0 (\<lambda>i. \<lparr>size_m = 2, capacity_m = 3, items_m = ArrayPtr (Ptr 0 0)\<rparr>)
     \<lparr>blocks = [Some [1, 2, 9::int]], avail = 10, fresh = (\<lambda>k. 7)\<rparr> =
     Inr ((\<lambda>i. \<lparr>size_m = 2, capacity_m = 3, items_m = ArrayPtr (Ptr 0 0)\<rparr>),
          \<lparr>blocks = [Some [1, 2, 9]], avail = 10, fresh = (\<lambda>k. 7)\<rparr>) \<and>
   elements \<lparr>size_m = 2, capacity_m = 3, items_m = ArrayPtr (Ptr 0 0)\<rparr>
     \<lparr>blocks = [Some [1, 2, 9::int]], avail = 10, fresh = (\<lambda>k. 7)\<rparr> = [1, 2] \<and>
   GetSize \<lparr>size_m = 2, capacity_m = 3, items_m = ArrayPtr (Ptr 0 0)\<rparr> = 2 \<and>
   GetCapacity \<lparr>size_m = 2, capacity_m = 3, items_m = ArrayPtr (Ptr 0 0)\<rparr> = 3 \<and>
   GetCapacity \<lparr>size_m = 2, capacity_m = 3, items_m = ArrayPtr (Ptr 0 0)\<rparr> \<noteq>
     GetSize \<lparr>size_m = 2, capacity_m = 3, items_m = ArrayPtr (Ptr 0 0)\<rparr>"
  by (simp add: copy_assign_def elements_def block_at_def GetSize_def GetCapacity_def)

section \<open>Assignment to itself\<close>

text \<open>
  C10. For every vector \<open>v\<close> (the object at \<open>v\<close> in any store \<open>V\<close>, on any free store \<open>h\<close>),
  \<^verbatim>\<open>v = v\<close> and \<^verbatim>\<open>v = std::move(v)\<close> return with every object and the free store as they
  were: \<open>v\<close> has the same size, the same capacity and the same elements in the same order,
  and the move assignment does not empty it.
\<close>

theorem self_assignment:
  "(\<exists>V' h'. copy_assign v v V h = Inr (V', h') \<and> V' = V \<and> h' = h \<and>
      GetSize (V' v) = GetSize (V v) \<and> GetCapacity (V' v) = GetCapacity (V v) \<and>
      elements (V' v) h' = elements (V v) h) \<and>
   (\<exists>V' h'. move_assign v v V h = Inr (V', h') \<and> V' = V \<and> h' = h \<and>
      GetSize (V' v) = GetSize (V v) \<and> GetCapacity (V' v) = GetCapacity (V v) \<and>
      elements (V' v) h' = elements (V v) h \<and> IsEmpty (V' v) = IsEmpty (V v))"
  by (simp add: copy_assign_def move_assign_def)

theorem self_assignment_witness:
  "(\<exists>V' h'. copy_assign () () (\<lambda>u. \<lparr>size_m = 2, capacity_m = 3, items_m = ArrayPtr (Ptr 0 0)\<rparr>)
       \<lparr>blocks = [Some [1, 2, 9::int]], avail = 10, fresh = (\<lambda>k. 7)\<rparr> = Inr (V', h') \<and>
      GetSize (V' ()) = 2 \<and> GetCapacity (V' ()) = 3 \<and> elements (V' ()) h' = [1, 2]) \<and>
   (\<exists>V' h'. move_assign () () (\<lambda>u. \<lparr>size_m = 2, capacity_m = 3, items_m = ArrayPtr (Ptr 0 0)\<rparr>)
       \<lparr>blocks = [Some [1, 2, 9::int]], avail = 10, fresh = (\<lambda>k. 7)\<rparr> = Inr (V', h') \<and>
      GetSize (V' ()) = 2 \<and> GetCapacity (V' ()) = 3 \<and> elements (V' ()) h' = [1, 2] \<and>
      \<not> IsEmpty (V' ()))"
  using self_assignment [of "()" "\<lambda>u. \<lparr>size_m = 2, capacity_m = 3, items_m = ArrayPtr (Ptr 0 0)\<rparr>"
      "\<lparr>blocks = [Some [1, 2, 9::int]], avail = 10, fresh = (\<lambda>k. 7)\<rparr>"]
  by (simp add: GetSize_def GetCapacity_def IsEmpty_def elements_def block_at_def)

section \<open>Moving an ArrayPtr\<close>

text \<open>
  C9, amended. The move constructor makes the new ArrayPtr point where \<open>other\<close> pointed and
  leaves \<open>other\<close> empty (its conversion to \<^verbatim>\<open>bool\<close> is false); it does not use the free
  store. Move assignment between two distinct objects, to an owner, returns with the
  destination pointing where the source pointed and the source empty, allocates nothing,
  and deletes exactly the block the destination owned until then: every other block,
  the transferred one among them when it is another block, is as it was, and with an empty
  destination the free store is unchanged. Move assignment of an object to itself changes
  nothing.
\<close>

theorem ArrayPtr_move_spec:
  "(\<exists>this' other'. ArrayPtr_move src = (this', other') \<and> raw_ptr_m this' = raw_ptr_m src \<and>
      other' = ArrayPtr nullptr \<and> \<not> ArrayPtr_bool other') \<and>
   (this \<noteq> other \<and> owner (P this) h \<longrightarrow>
      (\<exists>P' h'. ArrayPtr_move_assign this other P h = Inr (P', h') \<and>
         P' this = P other \<and> P' other = ArrayPtr nullptr \<and> \<not> ArrayPtr_bool (P' other) \<and>
         (\<forall>q. q \<noteq> this \<and> q \<noteq> other \<longrightarrow> P' q = P q) \<and>
         length (blocks h') = length (blocks h) \<and> avail h \<le> avail h' \<and>
         (\<forall>a. raw_ptr_m (P this) \<noteq> Ptr a 0 \<longrightarrow> block_at a h' = block_at a h) \<and>
         (\<forall>a. raw_ptr_m (P this) = Ptr a 0 \<longrightarrow> block_at a h' = None) \<and>
         (raw_ptr_m (P this) = nullptr \<longrightarrow> h' = h))) \<and>
   ArrayPtr_move_assign this this P h = Inr (P, h)"
proof (intro conjI impI)
  show "\<exists>this' other'. ArrayPtr_move src = (this', other') \<and> raw_ptr_m this' = raw_ptr_m src \<and>
      other' = ArrayPtr nullptr \<and> \<not> ArrayPtr_bool other'"
    by (simp add: ArrayPtr_move_def ArrayPtr_bool_def)
next
  show "ArrayPtr_move_assign this this P h = Inr (P, h)"
    by (simp add: ArrayPtr_move_assign_def)
next
  assume a: "this \<noteq> other \<and> owner (P this) h"
  from delete_array_owner [of "P this" h] a obtain h' where
    d: "delete_array (raw_ptr_m (P this)) h = Inr h'" and
    r: "length (blocks h') = length (blocks h)" "avail h \<le> avail h'"
       "\<forall>a. raw_ptr_m (P this) \<noteq> Ptr a 0 \<longrightarrow> block_at a h' = block_at a h"
       "\<forall>a. raw_ptr_m (P this) = Ptr a 0 \<longrightarrow> block_at a h' = None"
       "raw_ptr_m (P this) = nullptr \<longrightarrow> h' = h"
    by blast
  from a d have "ArrayPtr_move_assign this other P h =
      Inr (P(this := ArrayPtr (raw_ptr_m (P other)), other := ArrayPtr nullptr), h')"
    by (simp add: ArrayPtr_move_assign_def Let_def)
  with a r show "\<exists>P' h'. ArrayPtr_move_assign this other P h = Inr (P', h') \<and>
         P' this = P other \<and> P' other = ArrayPtr nullptr \<and> \<not> ArrayPtr_bool (P' other) \<and>
         (\<forall>q. q \<noteq> this \<and> q \<noteq> other \<longrightarrow> P' q = P q) \<and>
         length (blocks h') = length (blocks h) \<and> avail h \<le> avail h' \<and>
         (\<forall>a. raw_ptr_m (P this) \<noteq> Ptr a 0 \<longrightarrow> block_at a h' = block_at a h) \<and>
         (\<forall>a. raw_ptr_m (P this) = Ptr a 0 \<longrightarrow> block_at a h' = None) \<and>
         (raw_ptr_m (P this) = nullptr \<longrightarrow> h' = h)"
    by (simp add: ArrayPtr_bool_def)
qed

theorem ArrayPtr_move_spec_witness:
  "True \<noteq> False \<and>
   owner (ArrayPtr (Ptr 0 0)) \<lparr>blocks = [Some [1], Some [2, 3::int]], avail = 5, fresh = (\<lambda>k. 0)\<rparr> \<and>
   (\<exists>P' h'. ArrayPtr_move_assign True False
        (\<lambda>r. if r then ArrayPtr (Ptr 0 0) else ArrayPtr (Ptr 1 0))
        \<lparr>blocks = [Some [1], Some [2, 3::int]], avail = 5, fresh = (\<lambda>k. 0)\<rparr> = Inr (P', h') \<and>
      P' True = ArrayPtr (Ptr 1 0) \<and> P' False = ArrayPtr nullptr \<and> \<not> ArrayPtr_bool (P' False) \<and>
      length (blocks h') = 2 \<and> block_at 1 h' = Some [2, 3] \<and> block_at 0 h' = None)"
proof -
  let ?P = "\<lambda>r. if r then ArrayPtr (Ptr 0 0) else ArrayPtr (Ptr 1 0)"
  let ?h = "\<lparr>blocks = [Some [1], Some [2, 3::int]], avail = 5, fresh = (\<lambda>k. 0)\<rparr>"
  have o: "owner (ArrayPtr (Ptr 0 0)) ?h" by (simp add: owner_def block_at_def)
  have b: "block_at 1 ?h = Some [2, 3]" "length (blocks ?h) = 2" by (simp_all add: block_at_def)
  from ArrayPtr_move_spec [of "ArrayPtr (Ptr 1 0)" True False ?P ?h] o
  obtain P' h' where "ArrayPtr_move_assign True False ?P ?h = Inr (P', h')"
    "P' True = ArrayPtr (Ptr 1 0)" "P' False = ArrayPtr nullptr" "\<not> ArrayPtr_bool (P' False)"
    "length (blocks h') = length (blocks ?h)"
    "\<forall>a. Ptr 0 0 \<noteq> Ptr a 0 \<longrightarrow> block_at a h' = block_at a ?h"
    "\<forall>a. Ptr 0 0 = Ptr a 0 \<longrightarrow> block_at a h' = None"
    by auto
  with b have "\<exists>P' h'. ArrayPtr_move_assign True False ?P ?h = Inr (P', h') \<and>
      P' True = ArrayPtr (Ptr 1 0) \<and> P' False = ArrayPtr nullptr \<and> \<not> ArrayPtr_bool (P' False) \<and>
      length (blocks h') = 2 \<and> block_at 1 h' = Some [2, 3] \<and> block_at 0 h' = None"
    by (intro exI [of _ P'] exI [of _ h']) simp
  with o show ?thesis by simp
qed

text \<open>
  What C9 says of every pair does not hold of these two. A destination that owns a block
  has it deleted by the move assignment (\<^verbatim>\<open>delete[] raw_ptr_\<close>): block 0 is gone and its
  element is back in the free store. And when the two are one object, the guard
  \<^verbatim>\<open>this != &other\<close> leaves it as it is, so the source is not empty afterwards.
\<close>

theorem ArrayPtr_move_assign_deletes:
  "ArrayPtr_move_assign True False (\<lambda>r. if r then ArrayPtr (Ptr 0 0) else ArrayPtr (Ptr 1 0))
     \<lparr>blocks = [Some [1], Some [2, 3::int]], avail = 5, fresh = (\<lambda>k. 0)\<rparr> =
     Inr ((\<lambda>r. if r then ArrayPtr (Ptr 0 0) else ArrayPtr (Ptr 1 0))
            (True := ArrayPtr (Ptr 1 0), False := ArrayPtr nullptr),
          \<lparr>blocks = [None, Some [2, 3]], avail = 6, fresh = (\<lambda>k. 0)\<rparr>) \<and>
   block_at 0 \<lparr>blocks = [Some [1], Some [2, 3::int]], avail = 5, fresh = (\<lambda>k. 0)\<rparr> = Some [1] \<and>
   block_at 0 \<lparr>blocks = [None, Some [2, 3::int]], avail = 6, fresh = (\<lambda>k. 0)\<rparr> = None \<and>
   ArrayPtr_move_assign True True (\<lambda>r. if r then ArrayPtr (Ptr 0 0) else ArrayPtr (Ptr 1 0))
     \<lparr>blocks = [Some [1], Some [2, 3::int]], avail = 5, fresh = (\<lambda>k. 0)\<rparr> =
     Inr ((\<lambda>r. if r then ArrayPtr (Ptr 0 0) else ArrayPtr (Ptr 1 0)),
          \<lparr>blocks = [Some [1], Some [2, 3]], avail = 5, fresh = (\<lambda>k. 0)\<rparr>) \<and>
   ArrayPtr_bool (ArrayPtr (Ptr 0 0))"
  by (simp add: ArrayPtr_move_assign_def delete_array_def block_at_def ArrayPtr_bool_def Let_def)

section \<open>The size never exceeds the capacity\<close>

text \<open>
  C2. In every state a program reaches from its start by public operations of
  SimpleVector (the constructors, the destructor, \<^verbatim>\<open>Reserve\<close>, \<^verbatim>\<open>Resize\<close>, \<^verbatim>\<open>Clear\<close>,
  \<^verbatim>\<open>PushBack\<close> and \<^verbatim>\<open>Insert\<close> of any argument, \<^verbatim>\<open>PopBack\<close>, \<^verbatim>\<open>Erase\<close>, assignment
  through \<^verbatim>\<open>At\<close> and
  \<^verbatim>\<open>operator[]\<close>, \<^verbatim>\<open>swap\<close>, copy and move assignment, on any of its vectors, returning
  or throwing an exception that is caught), every vector alive has a size at most its
  capacity; and one more operation on such a state leads to a state where this holds
  again.
\<close>

theorem size_invariant:
  "(run cs (program_start h) = Some w \<longrightarrow>
      (\<forall>i. alive w i \<longrightarrow> GetSize (vectors w i) \<le> GetCapacity (vectors w i))) \<and>
   (run cs (program_start h) = Some w \<and> call c w = Some w' \<longrightarrow>
      (\<forall>i. alive w' i \<longrightarrow> GetSize (vectors w' i) \<le> GetCapacity (vectors w' i)))"
proof (intro conjI impI allI)
  fix i
  assume r: "run cs (program_start h) = Some w" and a: "alive w i"
  from run_sound [OF sound_start r] a
  show "GetSize (vectors w i) \<le> GetCapacity (vectors w i)" by (rule sound_size)
next
  fix i
  assume r: "run cs (program_start h) = Some w \<and> call c w = Some w'" and a: "alive w' i"
  from r have "sound w" by (auto intro: run_sound [OF sound_start])
  with r have "sound w'" by (auto intro: call_sound)
  then show "GetSize (vectors w' i) \<le> GetCapacity (vectors w' i)" using a by (rule sound_size)
qed

theorem size_invariant_witness:
  "\<exists>w w'. run [Declare 0 (New_init [1, 2, 3]), Change 0 (Do_PushBack (Local 4)), Declare_copy 1 0,
              Change 0 (Do_Resize 0 2)]
          (program_start \<lparr>blocks = [], avail = 100, fresh = (\<lambda>k. 0::int)\<rparr>) = Some w \<and>
     alive w 0 \<and> GetSize (vectors w 0) = 2 \<and> GetCapacity (vectors w 0) = 6 \<and>
     alive w 1 \<and> GetSize (vectors w 1) = 4 \<and> GetCapacity (vectors w 1) = 4 \<and>
     GetSize (vectors w 0) \<le> GetCapacity (vectors w 0) \<and>
     call (Change 1 (Do_PushBack (Local 5))) w = Some w' \<and>
     alive w' 1 \<and> GetSize (vectors w' 1) = 5 \<and> GetCapacity (vectors w' 1) = 8 \<and>
     GetSize (vectors w' 1) \<le> GetCapacity (vectors w' 1)"
proof -
  let ?cs = "[Declare 0 (New_init [1, 2, 3]), Change 0 (Do_PushBack (Local 4)), Declare_copy 1 0,
              Change 0 (Do_Resize 0 2)]"
  let ?h = "\<lparr>blocks = [], avail = 100, fresh = (\<lambda>k. 0::int)\<rparr>"
  note ev = ArrayPtr_sized_def new_array_def max_array_def ArrayPtr_destroy_def
    delete_array_def put_def ArrayPtr_index_def subscript_def block_at_def assign_to_def
    for_up.simps move_elem_def deref_def Let_def upt_conv_Cons
  have "\<exists>w. run ?cs (program_start ?h) = Some w \<and>
     alive w 0 \<and> GetSize (vectors w 0) = 2 \<and> GetCapacity (vectors w 0) = 6 \<and>
     alive w 1 \<and> GetSize (vectors w 1) = 4 \<and> GetCapacity (vectors w 1) = 4 \<and>
     (\<exists>w'. call (Change 1 (Do_PushBack (Local 5))) w = Some w' \<and>
     alive w' 1 \<and> GetSize (vectors w' 1) = 5 \<and> GetCapacity (vectors w' 1) = 8)"
    by (simp add: program_start_def SimpleVector_init_def PushBack_def EmplaceBack_def
        SimpleVector_copy_def Resize_def GetSize_def GetCapacity_def ev)
  then obtain w w' where r: "run ?cs (program_start ?h) = Some w"
    and c: "call (Change 1 (Do_PushBack (Local 5))) w = Some w'"
    and o: "alive w 0" "GetSize (vectors w 0) = 2" "GetCapacity (vectors w 0) = 6"
      "alive w 1" "GetSize (vectors w 1) = 4" "GetCapacity (vectors w 1) = 4"
      "alive w' 1" "GetSize (vectors w' 1) = 5" "GetCapacity (vectors w' 1) = 8"
    by blast
  from size_invariant [of ?cs ?h w "Change 1 (Do_PushBack (Local 5))" w'] r c o(1,7)
  have "GetSize (vectors w 0) \<le> GetCapacity (vectors w 0)"
    "GetSize (vectors w' 1) \<le> GetCapacity (vectors w' 1)" by blast+
  with r c o show ?thesis by blast
qed

end
